theory Spec2Isabelle
  imports Complex_Main
begin

section \<open>Data model\<close>

text \<open>
  The program is a Python 3 module working on numpy arrays of 64-bit floats. Feature
  values, labels, impurities and gains are modelled as exact rationals: comparisons and
  arithmetic are those of the source, without rounding. Exceptions are values of the
  type \<open>error\<close>; a function that can raise returns \<open>error + 'a\<close>.
\<close>

datatype error = IndexError | ZeroDivisionError | AttributeError | ValueError

type_synonym val = rat
type_synonym row = "val list"

text \<open>
  A dictionary from labels to counts, in insertion order (the order in which
  \<open>top_pick\<close> scans it).
\<close>

type_synonym hist = "(val \<times> nat) list"

record question =
  feature :: nat
  split_value :: val

text \<open>
  The class \<open>Node\<close>: a leaf carries \<open>predictions\<close>; a decision node carries
  \<open>question\<close>, \<open>true_branch\<close> and \<open>false_branch\<close>, each of which is a
  reference that Python allows to be \<open>None\<close>.
\<close>

datatype node =
  Leaf hist
| Decision "question option" "node option" "node option"

section \<open>Sequencing of computations that can raise\<close>

definition ebind :: "error + 'a \<Rightarrow> ('a \<Rightarrow> error + 'b) \<Rightarrow> error + 'b" where
  "ebind m f = (case m of Inl e \<Rightarrow> Inl e | Inr v \<Rightarrow> f v)"

text \<open>A \<open>for\<close> loop over a list whose body updates a state and may raise.\<close>

fun efold :: "('a \<Rightarrow> 's \<Rightarrow> error + 's) \<Rightarrow> 'a list \<Rightarrow> 's \<Rightarrow> error + 's" where
  "efold body [] s = Inr s"
| "efold body (x # xs) s = (case body x s of Inl e \<Rightarrow> Inl e | Inr s' \<Rightarrow> efold body xs s')"

section \<open>Counting the labels\<close>

text \<open>
  \<open>counts[label] += 1\<close>, after \<open>counts[label] = 0\<close> when the label is new: a new
  label is appended to the dictionary, a known one keeps its place.
\<close>

fun incr :: "val \<Rightarrow> hist \<Rightarrow> hist" where
  "incr label [] = [(label, 1)]"
| "incr label ((k, c) # counts) =
     (if k = label then (k, c + 1) # counts else (k, c) # incr label counts)"

text \<open>\<open>row[-1]\<close> raises on an empty row.\<close>

definition count_row :: "row \<Rightarrow> hist \<Rightarrow> error + hist" where
  "count_row r counts = (if r = [] then Inl IndexError else Inr (incr (last r) counts))"

definition class_counts :: "row list \<Rightarrow> error + hist" where
  "class_counts data = efold count_row data []"

section \<open>Question and partition\<close>

text \<open>\<open>against[self.feature] >= self.value\<close>; the index is never negative.\<close>

definition match :: "question \<Rightarrow> row \<Rightarrow> error + bool" where
  "match q against =
     (if feature q < length against then Inr (against ! feature q \<ge> split_value q)
      else Inl IndexError)"

text \<open>
  The loop body of \<open>partition\<close>. The question is a reference: calling \<open>match\<close> on
  \<open>None\<close> raises.
\<close>

definition partition_step ::
  "question option \<Rightarrow> row \<Rightarrow> row list \<times> row list \<Rightarrow> error + (row list \<times> row list)" where
  "partition_step qo r acc =
     (case qo of
        None \<Rightarrow> Inl AttributeError
      | Some q \<Rightarrow>
          (case match q r of
             Inl e \<Rightarrow> Inl e
           | Inr b \<Rightarrow> if b then Inr (fst acc @ [r], snd acc) else Inr (fst acc, snd acc @ [r])))"

definition partition_rows ::
  "row list \<Rightarrow> question option \<Rightarrow> error + (row list \<times> row list)" where
  "partition_rows rows qo = efold (partition_step qo) rows ([], [])"

section \<open>Gini impurity and information gain\<close>

text \<open>
  The loop body of \<open>gini\<close>: \<open>counts[label] / samples\<close> is a Python float division,
  which raises when \<open>samples\<close> is zero.
\<close>

definition gini_step :: "rat \<Rightarrow> val \<times> nat \<Rightarrow> rat \<Rightarrow> error + rat" where
  "gini_step samples entry impurity =
     (if samples = 0 then Inl ZeroDivisionError
      else Inr (impurity - (of_nat (snd entry) / samples)\<^sup>2))"

definition gini :: "row list \<Rightarrow> error + rat" where
  "gini rows =
     ebind (class_counts rows) (\<lambda>counts.
       efold (gini_step (of_nat (length rows))) counts 1)"

definition info_gain :: "row list \<Rightarrow> row list \<Rightarrow> rat \<Rightarrow> error + rat" where
  "info_gain left right current_uncertainty =
     (if length left + length right = 0 then Inl ZeroDivisionError
      else
        let prob_left = of_nat (length left) / of_nat (length left + length right);
            prob_right = 1 - prob_left
        in ebind (gini left) (\<lambda>gl.
           ebind (gini right) (\<lambda>gr.
             Inr (current_uncertainty - prob_left * gl - prob_right * gr))))"

section \<open>Split search\<close>

text \<open>\<open>[row[col] for row in rows]\<close>.\<close>

definition column_step :: "nat \<Rightarrow> row \<Rightarrow> val list \<Rightarrow> error + val list" where
  "column_step col r acc = (if col < length r then Inr (acc @ [r ! col]) else Inl IndexError)"

definition column :: "nat \<Rightarrow> row list \<Rightarrow> error + val list" where
  "column col rows = efold (column_step col) rows []"

text \<open>
  The body of the inner loop of \<open>find_best_split\<close> for one candidate value; the state
  is the pair \<open>(most_gain, best_question)\<close>.
\<close>

definition try_split ::
  "rat \<Rightarrow> row list \<Rightarrow> rat \<Rightarrow> nat \<Rightarrow> val \<Rightarrow> rat \<times> question option \<Rightarrow>
   error + (rat \<times> question option)" where
  "try_split stopping_criteria rows current_gini col v st =
     (let q = \<lparr>feature = col, split_value = v\<rparr> in
      case partition_rows rows (Some q) of
        Inl e \<Rightarrow> Inl e
      | Inr (true_rows, false_rows) \<Rightarrow>
          if of_nat (length true_rows) < stopping_criteria
             \<or> of_nat (length false_rows) < stopping_criteria
          then Inr st
          else (case info_gain true_rows false_rows current_gini of
                  Inl e \<Rightarrow> Inl e
                | Inr g \<Rightarrow> if g \<ge> fst st then Inr (g, Some q) else Inr st))"

text \<open>
  The body of the outer loop. The source iterates over a Python \<open>set\<close> of the column's
  values, whose iteration order the language does not fix: \<open>order\<close> is that order, a
  parameter of the model.
\<close>

definition try_column ::
  "(val list \<Rightarrow> val list) \<Rightarrow> rat \<Rightarrow> row list \<Rightarrow> rat \<Rightarrow> nat \<Rightarrow> rat \<times> question option \<Rightarrow>
   error + (rat \<times> question option)" where
  "try_column order stopping_criteria rows current_gini col st =
     (case column col rows of
        Inl e \<Rightarrow> Inl e
      | Inr values \<Rightarrow> efold (try_split stopping_criteria rows current_gini col) (order values) st)"

definition find_best_split ::
  "(val list \<Rightarrow> val list) \<Rightarrow> rat \<Rightarrow> row list \<Rightarrow> error + (rat \<times> question option)" where
  "find_best_split order stopping_criteria rows =
     (case gini rows of
        Inl e \<Rightarrow> Inl e
      | Inr current_gini \<Rightarrow>
          (case rows of
             [] \<Rightarrow> Inl IndexError
           | r0 # _ \<Rightarrow>
               efold (try_column order stopping_criteria rows current_gini)
                     [0 ..< length r0 - 1] (0, None)))"

section \<open>Basic facts used by the termination proof of the builder\<close>

lemma ebind_Inr [simp]: "ebind (Inr v) f = f v" by (simp add: ebind_def)
lemma ebind_Inl [simp]: "ebind (Inl e) f = Inl e" by (simp add: ebind_def)

lemma ebind_eq_Inr: "ebind m f = Inr r \<longleftrightarrow> (\<exists>v. m = Inr v \<and> f v = Inr r)"
  by (cases m) simp_all

lemma efold_append:
  "efold body (xs @ ys) s = ebind (efold body xs s) (efold body ys)"
  by (induction xs arbitrary: s) (auto split: sum.splits)

lemma efold_invariant:
  assumes "efold body xs s = Inr s'" and "P s"
    and "\<And>x a b. x \<in> set xs \<Longrightarrow> P a \<Longrightarrow> body x a = Inr b \<Longrightarrow> P b"
  shows "P s'"
  using assms
proof (induction xs arbitrary: s)
  case Nil
  then show ?case by simp
next
  case (Cons x xs)
  from Cons.prems(1) obtain b where b: "body x s = Inr b" and r: "efold body xs b = Inr s'"
    by (auto split: sum.splits)
  have "P b" using Cons.prems(3)[of x s b] Cons.prems(2) b by simp
  show ?case by (rule Cons.IH[OF r \<open>P b\<close>]) (use Cons.prems(3) in auto)
qed

lemma efold_total:
  assumes "\<And>x a. x \<in> set xs \<Longrightarrow> \<exists>b. body x a = Inr b"
  shows "\<exists>s'. efold body xs s = Inr s'"
  using assms
proof (induction xs arbitrary: s)
  case Nil
  then show ?case by simp
next
  case (Cons x xs)
  then obtain b where "body x s = Inr b" by (meson list.set_intros(1))
  with Cons show ?case by simp
qed

lemma efold_pure:
  assumes "\<And>x a. x \<in> set xs \<Longrightarrow> body x a = Inr (g x a)"
  shows "efold body xs s = Inr (fold g xs s)"
  using assms by (induction xs arbitrary: s) auto

lemma efold_Inr_elem:
  assumes "efold body xs s = Inr s'" and "x \<in> set xs"
  shows "\<exists>a b. body x a = Inr b"
  using assms by (induction xs arbitrary: s) (auto split: sum.splits)

lemma partition_step_fold:
  assumes "efold (partition_step (Some q)) rows acc = Inr res"
  shows "res = (fst acc @ filter (\<lambda>r. r ! feature q \<ge> split_value q) rows,
                snd acc @ filter (\<lambda>r. \<not> r ! feature q \<ge> split_value q) rows)
         \<and> (\<forall>r\<in>set rows. feature q < length r)"
  using assms
proof (induction rows arbitrary: acc)
  case Nil
  then show ?case by simp
next
  case (Cons r rows)
  from Cons.prems obtain acc' where s: "partition_step (Some q) r acc = Inr acc'"
    and r: "efold (partition_step (Some q)) rows acc' = Inr res"
    by (auto split: sum.splits)
  from s have "feature q < length r"
    and "acc' = (if r ! feature q \<ge> split_value q then (fst acc @ [r], snd acc)
                 else (fst acc, snd acc @ [r]))"
    by (auto simp: partition_step_def match_def split: if_splits)
  with Cons.IH[OF r] show ?case by auto
qed

lemma partition_rows_Inr:
  assumes "partition_rows rows (Some q) = Inr (t, f)"
  shows "t = filter (\<lambda>r. r ! feature q \<ge> split_value q) rows"
    and "f = filter (\<lambda>r. \<not> r ! feature q \<ge> split_value q) rows"
    and "\<forall>r\<in>set rows. feature q < length r"
  using partition_step_fold[OF assms[unfolded partition_rows_def]] by simp_all

lemma partition_rows_total:
  assumes "\<forall>r\<in>set rows. feature q < length r"
  shows "partition_rows rows (Some q) =
         Inr (filter (\<lambda>r. r ! feature q \<ge> split_value q) rows,
              filter (\<lambda>r. \<not> r ! feature q \<ge> split_value q) rows)"
proof -
  have "\<exists>res. efold (partition_step (Some q)) rows ([], []) = Inr res"
    by (rule efold_total) (use assms in \<open>auto simp: partition_step_def match_def\<close>)
  then obtain res where r: "efold (partition_step (Some q)) rows ([], []) = Inr res" ..
  from partition_step_fold[OF r] r show ?thesis by (simp add: partition_rows_def)
qed

lemma partition_rows_length:
  assumes "partition_rows rows (Some q) = Inr (t, f)"
  shows "length t + length f = length rows"
  using partition_rows_Inr(1,2)[OF assms] by (simp add: sum_length_filter_compl)

lemma partition_rows_empty_side:
  assumes "partition_rows rows (Some q) = Inr (t, f)"
  shows "t = [] \<Longrightarrow> f = rows" and "f = [] \<Longrightarrow> t = rows"
  using partition_rows_Inr(1,2)[OF assms]
  by (auto simp: filter_empty_conv filter_id_conv)

lemma gini_Nil: "gini [] = Inr 1"
  by (simp add: gini_def class_counts_def)

lemma gini_fold_total:
  "samples \<noteq> 0 \<Longrightarrow> \<exists>g. efold (gini_step samples) counts imp = Inr g"
  by (rule efold_total) (simp add: gini_step_def)

lemma info_gain_left_empty:
  assumes "gini rows = Inr g" and "rows \<noteq> []"
  shows "info_gain [] rows g = Inr 0"
  using assms by (simp add: info_gain_def gini_Nil)

lemma info_gain_right_empty:
  assumes "gini rows = Inr g" and "rows \<noteq> []"
  shows "info_gain rows [] g = Inr 0"
  using assms by (simp add: info_gain_def gini_Nil)

text \<open>
  What the state of the split search always satisfies: the best gain is not negative, and
  the best question, when there is one, partitions the rows into two sides at or above the
  floor whose information gain is the best gain.
\<close>

definition split_inv :: "rat \<Rightarrow> row list \<Rightarrow> rat \<Rightarrow> rat \<times> question option \<Rightarrow> bool" where
  "split_inv sc rows cur st =
     (0 \<le> fst st \<and>
      (case snd st of
         None \<Rightarrow> fst st = 0
       | Some q \<Rightarrow> (\<exists>t f. partition_rows rows (Some q) = Inr (t, f)
                     \<and> info_gain t f cur = Inr (fst st)
                     \<and> sc \<le> of_nat (length t) \<and> sc \<le> of_nat (length f))))"

lemma try_split_inv:
  assumes "try_split sc rows cur col v st = Inr st'" and "split_inv sc rows cur st"
  shows "split_inv sc rows cur st'"
proof -
  let ?q = "\<lparr>feature = col, split_value = v\<rparr>"
  from assms(1) obtain t f where p: "partition_rows rows (Some ?q) = Inr (t, f)"
    by (auto simp: try_split_def Let_def split: sum.splits)
  show ?thesis
  proof (cases "of_nat (length t) < sc \<or> of_nat (length f) < sc")
    case True
    with assms p show ?thesis by (simp add: try_split_def)
  next
    case False
    with assms(1) p obtain g where g: "info_gain t f cur = Inr g"
      by (auto simp: try_split_def split: sum.splits)
    show ?thesis
    proof (cases "g \<ge> fst st")
      case True
      with assms(1) p False g have "st' = (g, Some ?q)" by (simp add: try_split_def)
      moreover have "0 \<le> g" using True assms(2) by (simp add: split_inv_def)
      ultimately show ?thesis using p g False by (auto simp: split_inv_def)
    next
      case nb: False
      with assms p False g show ?thesis by (simp add: try_split_def)
    qed
  qed
qed

lemma try_column_inv:
  assumes "try_column order sc rows cur col st = Inr st'" and "split_inv sc rows cur st"
  shows "split_inv sc rows cur st'"
proof -
  from assms(1) obtain vs where
    "efold (try_split sc rows cur col) (order vs) st = Inr st'"
    by (auto simp: try_column_def split: sum.splits)
  then show ?thesis
    by (rule efold_invariant) (use assms(2) try_split_inv in auto)
qed

lemma find_best_split_inv:
  assumes "find_best_split order sc rows = Inr st"
  shows "\<exists>cur. gini rows = Inr cur \<and> rows \<noteq> [] \<and> split_inv sc rows cur st"
proof -
  from assms obtain cur r0 rest where cur: "gini rows = Inr cur" and rows: "rows = r0 # rest"
    and e: "efold (try_column order sc rows cur) [0 ..< length r0 - 1] (0, None) = Inr st"
    by (auto simp: find_best_split_def split: sum.splits list.splits)
  have "split_inv sc rows cur st"
    by (rule efold_invariant[OF e]) (use try_column_inv in \<open>auto simp: split_inv_def\<close>)
  with cur rows show ?thesis by simp
qed

lemma find_best_split_shrinks:
  assumes "find_best_split order sc rows = Inr (gain, Some q)" and "gain \<noteq> 0"
    and "partition_rows rows (Some q) = Inr (t, f)"
  shows "length t < length rows" and "length f < length rows"
proof -
  from find_best_split_inv[OF assms(1)] assms(3) obtain cur where
    cur: "gini rows = Inr cur" and ne: "rows \<noteq> []" and g: "info_gain t f cur = Inr gain"
    by (auto simp: split_inv_def)
  have "t \<noteq> []"
  proof
    assume "t = []"
    with partition_rows_empty_side(1)[OF assms(3)] have "f = rows" by simp
    with \<open>t = []\<close> g info_gain_left_empty[OF cur ne] assms(2) show False by simp
  qed
  moreover have "f \<noteq> []"
  proof
    assume "f = []"
    with partition_rows_empty_side(2)[OF assms(3)] have "t = rows" by simp
    with \<open>f = []\<close> g info_gain_right_empty[OF cur ne] assms(2) show False by simp
  qed
  ultimately show "length t < length rows" and "length f < length rows"
    using partition_rows_length[OF assms(3)] by (cases t; cases f; simp)+
qed

lemma partition_rows_None:
  "partition_rows rows None = Inr pr \<Longrightarrow> rows = []"
  by (cases rows) (simp_all add: partition_rows_def partition_step_def)

lemma build_measure:
  assumes "find_best_split order sc rows = Inr (gain, question)" and "gain \<noteq> 0"
    and "partition_rows rows question = Inr (t, f)"
  shows "length t < length rows \<and> length f < length rows"
proof (cases question)
  case None
  with assms(3) have "rows = []" by (simp add: partition_rows_None)
  with find_best_split_inv[OF assms(1)] show ?thesis by simp
next
  case (Some q)
  with find_best_split_shrinks[of order sc rows gain q t f] assms show ?thesis by simp
qed

section \<open>Recursive tree builder\<close>

text \<open>
  \<open>Node(0, rows)\<close> computes the histogram of the rows; \<open>Node(1, None, question,
  true_branch, false_branch)\<close> stores the three references. The recursion is well
  founded because a split with a non-zero gain has two non-empty sides.
\<close>

function build :: "(val list \<Rightarrow> val list) \<Rightarrow> rat \<Rightarrow> row list \<Rightarrow> error + node" where
  "build order stopping_criteria rows =
     (case find_best_split order stopping_criteria rows of
        Inl e \<Rightarrow> Inl e
      | Inr (gain, question) \<Rightarrow>
          if gain = 0 then
            (case class_counts rows of Inl e \<Rightarrow> Inl e | Inr predictions \<Rightarrow> Inr (Leaf predictions))
          else
            (case partition_rows rows question of
               Inl e \<Rightarrow> Inl e
             | Inr (true_rows, false_rows) \<Rightarrow>
                 (case build order stopping_criteria true_rows of
                    Inl e \<Rightarrow> Inl e
                  | Inr true_branch \<Rightarrow>
                      (case build order stopping_criteria false_rows of
                         Inl e \<Rightarrow> Inl e
                       | Inr false_branch \<Rightarrow>
                           Inr (Decision question (Some true_branch) (Some false_branch))))))"
  by pat_completeness auto
termination
proof (relation "measure (\<lambda>(order, sc, rows). length rows)")
qed (use build_measure in auto)

declare build.simps [simp del]

section \<open>Queries on a node tree\<close>

fun depth :: "node \<Rightarrow> nat" where
  "depth (Leaf predictions) = 0"
| "depth (Decision qo tb fb) =
     Suc (max (case tb of None \<Rightarrow> 0 | Some n \<Rightarrow> depth n)
              (case fb of None \<Rightarrow> 0 | Some n \<Rightarrow> depth n))"

text \<open>The nodes reachable from a node, itself included.\<close>

fun subnodes :: "node \<Rightarrow> node set" where
  "subnodes (Leaf predictions) = {Leaf predictions}"
| "subnodes (Decision qo tb fb) =
     insert (Decision qo tb fb)
       ((case tb of None \<Rightarrow> {} | Some n \<Rightarrow> subnodes n)
        \<union> (case fb of None \<Rightarrow> {} | Some n \<Rightarrow> subnodes n))"

text \<open>
  The number of training rows that reached a node: the counts of the histograms of the
  leaves below it.
\<close>

fun node_rows :: "node \<Rightarrow> nat" where
  "node_rows (Leaf predictions) = sum_list (map snd predictions)"
| "node_rows (Decision qo tb fb) =
     (case tb of None \<Rightarrow> 0 | Some n \<Rightarrow> node_rows n)
     + (case fb of None \<Rightarrow> 0 | Some n \<Rightarrow> node_rows n)"

section \<open>Classification\<close>

text \<open>The loop body of \<open>top_pick\<close>; the state is \<open>(best_class, best_number)\<close>.\<close>

definition top_pick_step :: "val \<times> nat \<Rightarrow> val \<times> nat \<Rightarrow> val \<times> nat" where
  "top_pick_step entry best = (if snd entry > snd best then entry else best)"

definition top_pick :: "hist \<Rightarrow> val" where
  "top_pick predictions = fst (fold top_pick_step predictions (0, 0))"

fun classify :: "row \<Rightarrow> node \<Rightarrow> error + val" where
  "classify r (Leaf predictions) = Inr (top_pick predictions)"
| "classify r (Decision qo tb fb) =
     (case qo of
        None \<Rightarrow> Inl AttributeError
      | Some q \<Rightarrow>
          (case match q r of
             Inl e \<Rightarrow> Inl e
           | Inr b \<Rightarrow>
               if b then (case tb of None \<Rightarrow> Inl AttributeError | Some n \<Rightarrow> classify r n)
               else (case fb of None \<Rightarrow> Inl AttributeError | Some n \<Rightarrow> classify r n)))"

text \<open>
  The same walk with a bound on the number of recursive calls below the first one:
  \<open>None\<close> means that the bound was reached before the walk ended.
\<close>

fun classify_within :: "nat \<Rightarrow> row \<Rightarrow> node \<Rightarrow> (error + val) option" where
  "classify_within k r (Leaf predictions) = Some (Inr (top_pick predictions))"
| "classify_within k r (Decision qo tb fb) =
     (case qo of
        None \<Rightarrow> Some (Inl AttributeError)
      | Some q \<Rightarrow>
          (case match q r of
             Inl e \<Rightarrow> Some (Inl e)
           | Inr b \<Rightarrow>
               (case (if b then tb else fb) of
                  None \<Rightarrow> Some (Inl AttributeError)
                | Some n \<Rightarrow> (case k of 0 \<Rightarrow> None | Suc k' \<Rightarrow> classify_within k' r n))))"

text \<open>\<open>self.classify(row, self.root_node)\<close>: the root is \<open>None\<close> until \<open>fit\<close>.\<close>

definition classify_root :: "row \<Rightarrow> node option \<Rightarrow> error + val" where
  "classify_root r node_ref = (case node_ref of None \<Rightarrow> Inl AttributeError | Some n \<Rightarrow> classify r n)"

section \<open>The class Tree\<close>

text \<open>
  \<open>feature_indices\<close> is an attribute that only \<open>RandomForest.fit\<close> creates; reading
  it before raises.
\<close>

record tree =
  stopping_criteria :: rat
  root_node :: "node option"
  feature_indices :: "nat list option"

definition new_tree :: tree where
  "new_tree = \<lparr>stopping_criteria = 0, root_node = None, feature_indices = None\<rparr>"

text \<open>
  \<open>merged_train[i] = np.append(x[i], y[i])\<close>: reading \<open>y[i]\<close> raises past the end
  of \<open>y\<close>; numpy refuses to store a row of the wrong length, except that a row of length
  one is broadcast.
\<close>

definition merge_step ::
  "row list \<Rightarrow> val list \<Rightarrow> nat \<Rightarrow> nat \<Rightarrow> row list \<Rightarrow> error + row list" where
  "merge_step x y width i merged =
     (if i < length y then
        (let r = x ! i @ [y ! i] in
         if length r = width then Inr (merged @ [r])
         else if length r = 1 then Inr (merged @ [replicate width (y ! i)])
         else Inl ValueError)
      else Inl IndexError)"

definition merge_train :: "row list \<Rightarrow> val list \<Rightarrow> error + row list" where
  "merge_train x y =
     (case x of
        [] \<Rightarrow> Inl IndexError
      | x0 # _ \<Rightarrow> efold (merge_step x y (length x0 + 1)) [0 ..< length x] [])"

text \<open>
  \<open>fit\<close> returns nothing and assigns two fields. The result is the tree after a normal
  return, or the exception together with the tree as it was when the exception left the
  method. \<open>len(merged_train) / 10\<close> is Python 3's true division.
\<close>

definition fit ::
  "(val list \<Rightarrow> val list) \<Rightarrow> tree \<Rightarrow> row list \<Rightarrow> val list \<Rightarrow> rat \<Rightarrow> error \<times> tree + tree" where
  "fit order self x y sc =
     (case merge_train x y of
        Inl e \<Rightarrow> Inl (e, self)
      | Inr merged_train \<Rightarrow>
          (let self1 = self\<lparr>stopping_criteria :=
                              (if sc \<noteq> 0 then sc else of_nat (length merged_train) / 10)\<rparr>
           in case build order (stopping_criteria self1) merged_train of
                Inl e \<Rightarrow> Inl (e, self1)
              | Inr built \<Rightarrow> Inr (self1\<lparr>root_node := Some built\<rparr>)))"

text \<open>The counting loop shared by \<open>score\<close> and \<open>predict\<close>.\<close>

definition count_step :: "tree \<Rightarrow> row list \<Rightarrow> val list \<Rightarrow> nat \<Rightarrow> nat \<Rightarrow> error + nat" where
  "count_step self x y i correct =
     (case classify_root (x ! i) (root_node self) of
        Inl e \<Rightarrow> Inl e
      | Inr label \<Rightarrow>
          if i < length y then Inr (if label = y ! i then correct + 1 else correct)
          else Inl IndexError)"


text \<open>
  \<open>predict\<close> takes the labels as well, prints the number of rows, the number of
  correct rows and the percentage, and has no \<open>return\<close> statement: the value it
  returns is Python's \<open>None\<close>. The result is the printed triple and the returned
  value.
\<close>

definition predict ::
  "tree \<Rightarrow> row list \<Rightarrow> val list \<Rightarrow> error + ((nat \<times> nat \<times> rat) \<times> val list option)" where
  "predict self x y =
     (case efold (count_step self x y) [0 ..< length x] 0 of
        Inl e \<Rightarrow> Inl e
      | Inr correct \<Rightarrow>
          if length x = 0 then Inl ZeroDivisionError
          else Inr ((length x, correct, of_nat correct / of_nat (length x) * 100), None))"

definition rf_predict_step :: "tree \<Rightarrow> row \<Rightarrow> val list \<Rightarrow> error + val list" where
  "rf_predict_step self r y_preds =
     (case classify_root r (root_node self) of
        Inl e \<Rightarrow> Inl e
      | Inr label \<Rightarrow> Inr (y_preds @ [label]))"

definition random_forest_predict :: "tree \<Rightarrow> row list \<Rightarrow> error + val list" where
  "random_forest_predict self x = efold (rf_predict_step self) x []"

section \<open>The class RandomForest\<close>

text \<open>
  The field \<open>stopping_criteria\<close> of the forest is written \<open>forest_stopping_criteria\<close>,
  as the tree already has a field of that name. \<open>max_features\<close> is \<open>None\<close> until it is
  given or resolved.
\<close>

record forest =
  n_trees :: nat
  max_features :: "nat option"
  forest_stopping_criteria :: rat
  the_forest :: "tree list"


subsection \<open>Prediction\<close>

text \<open>
  \<open>np.unique(a, return_counts=True)\<close> is numpy's: the distinct values of \<open>a\<close> in
  ascending order, each with the number of times it occurs.
\<close>

definition unique_counts :: "val list \<Rightarrow> (val \<times> nat) list" where
  "unique_counts a = map (\<lambda>v. (v, count_list a v)) (sort (remdups a))"

text \<open>The scan for the top class; the state is \<open>(top_class_votes, top_class_index)\<close>.\<close>

definition vote_step :: "(val \<times> nat) list \<Rightarrow> nat \<Rightarrow> nat \<times> nat \<Rightarrow> nat \<times> nat" where
  "vote_step votes j st = (if snd (votes ! j) > fst st then (snd (votes ! j), j) else st)"

definition vote :: "val list \<Rightarrow> error + val" where
  "vote preds =
     (let votes = unique_counts preds in
      if length votes = 1 then Inr (fst (votes ! 0))
      else
        let top_class_index = snd (fold (vote_step votes) [0 ..< length votes] (0, 0))
        in if top_class_index < length votes then Inr (fst (votes ! top_class_index))
           else Inl IndexError)"

text \<open>\<open>x[:, idx]\<close> on one row.\<close>

definition select_step :: "row \<Rightarrow> nat \<Rightarrow> row \<Rightarrow> error + row" where
  "select_step r j acc = (if j < length r then Inr (acc @ [r ! j]) else Inl IndexError)"

definition select_columns_step :: "nat list \<Rightarrow> row \<Rightarrow> row list \<Rightarrow> error + row list" where
  "select_columns_step idx r acc =
     (case efold (select_step r) idx [] of Inl e \<Rightarrow> Inl e | Inr r' \<Rightarrow> Inr (acc @ [r']))"

definition select_columns :: "row list \<Rightarrow> nat list \<Rightarrow> error + row list" where
  "select_columns x idx = efold (select_columns_step idx) x []"

text \<open>
  The first loop of \<open>RandomForest.predict\<close> fills one column of the prediction matrix
  per tree; the state is the list of the columns filled so far.
\<close>

definition tree_column_step :: "row list \<Rightarrow> tree \<Rightarrow> val list list \<Rightarrow> error + val list list" where
  "tree_column_step x t cols =
     (case feature_indices t of
        None \<Rightarrow> Inl AttributeError
      | Some idx \<Rightarrow>
          (case select_columns x idx of
             Inl e \<Rightarrow> Inl e
           | Inr x' \<Rightarrow>
               (case random_forest_predict t x' of
                  Inl e \<Rightarrow> Inl e
                | Inr prediction \<Rightarrow> Inr (cols @ [prediction]))))"

text \<open>The second loop: row \<open>i\<close> of the matrix is voted on.\<close>

definition top_voted_step :: "val list list \<Rightarrow> nat \<Rightarrow> val list \<Rightarrow> error + val list" where
  "top_voted_step cols i top_voted =
     (case vote (map (\<lambda>c. c ! i) cols) of
        Inl e \<Rightarrow> Inl e
      | Inr top_cls \<Rightarrow> Inr (top_voted @ [top_cls]))"

definition forest_predict :: "forest \<Rightarrow> row list \<Rightarrow> error + val list" where
  "forest_predict self x =
     (case efold (tree_column_step x) (the_forest self) [] of
        Inl e \<Rightarrow> Inl e
      | Inr cols \<Rightarrow> efold (top_voted_step cols) [0 ..< length x] [])"

subsection \<open>Fitting\<close>

text \<open>
  What numpy's random generator returns during one call of \<open>fit\<close>: the arrangement
  that \<open>np.random.shuffle\<close> leaves, the indices of the \<open>k\<close>-th call of
  \<open>np.random.choice\<close> in \<open>get_random_subsets\<close>, and the indices of the \<open>i\<close>-th
  call in \<open>RandomForest.fit\<close>.
\<close>

record draws =
  shuffle :: "row list \<Rightarrow> row list"
  row_choice :: "nat \<Rightarrow> nat list"
  feature_choice :: "nat \<Rightarrow> nat list"

text \<open>
  The generator's contract for \<open>n\<close> samples, \<open>F\<close> features and \<open>mf\<close> features per
  tree: shuffling rearranges, and every choice has the requested size and stays in range.
\<close>

definition numpy_draws :: "nat \<Rightarrow> nat \<Rightarrow> nat \<Rightarrow> draws \<Rightarrow> bool" where
  "numpy_draws n F mf rng =
     ((\<forall>a. length (shuffle rng a) = length a \<and> set (shuffle rng a) = set a)
      \<and> (\<forall>k. length (row_choice rng k) = n \<and> (\<forall>j\<in>set (row_choice rng k). j < n))
      \<and> (\<forall>i. length (feature_choice rng i) = mf \<and> (\<forall>j\<in>set (feature_choice rng i). j < F)))"

text \<open>\<open>a[idx]\<close> for an index array: numpy raises when an index is out of range.\<close>

definition index_rows :: "'a list \<Rightarrow> nat list \<Rightarrow> error + 'a list" where
  "index_rows a idx =
     (if list_all (\<lambda>j. j < length a) idx then Inr (map (\<lambda>j. a ! j) idx) else Inl IndexError)"

text \<open>
  The loop body of \<open>get_random_subsets\<close> with replacement: the rows drawn from the
  shuffled matrix, split into features and label.
\<close>

definition subset_step ::
  "draws \<Rightarrow> row list \<Rightarrow> nat \<Rightarrow> (row list \<times> val list) list \<Rightarrow>
   error + (row list \<times> val list) list" where
  "subset_step rng X_y k subsets =
     (case index_rows X_y (row_choice rng k) of
        Inl e \<Rightarrow> Inl e
      | Inr drawn \<Rightarrow> Inr (subsets @ [(map butlast drawn, map last drawn)]))"

text \<open>
  \<open>np.concatenate\<close> refuses a label column whose length is not the number of rows.
\<close>

definition get_random_subsets ::
  "draws \<Rightarrow> row list \<Rightarrow> val list \<Rightarrow> nat \<Rightarrow> error + (row list \<times> val list) list" where
  "get_random_subsets rng X y n_subsets =
     (if length y \<noteq> length X then Inl ValueError
      else
        let X_y = shuffle rng (map (\<lambda>(r, l). r @ [l]) (zip X y))
        in efold (subset_step rng X_y) [0 ..< n_subsets] [])"

text \<open>\<open>int(np.sqrt(n))\<close>: the integer part of the square root.\<close>

definition isqrt :: "nat \<Rightarrow> nat" where
  "isqrt n = length (filter (\<lambda>m. m * m \<le> n) [1 ..< Suc n])"

text \<open>
  A loop whose body changes the object and may raise: the exception carries the object as
  the loop left it.
\<close>

fun sfold :: "('a \<Rightarrow> 's \<Rightarrow> error \<times> 's + 's) \<Rightarrow> 'a list \<Rightarrow> 's \<Rightarrow> error \<times> 's + 's" where
  "sfold body [] s = Inr s"
| "sfold body (x # xs) s = (case body x s of Inl es \<Rightarrow> Inl es | Inr s' \<Rightarrow> sfold body xs s')"

text \<open>
  The loop body of \<open>RandomForest.fit\<close> for tree \<open>i\<close>. \<open>np.random.choice\<close> raises when
  asked for indices of an empty range.
\<close>

definition fit_tree_step ::
  "draws \<Rightarrow> (val list \<Rightarrow> val list) \<Rightarrow> (row list \<times> val list) list \<Rightarrow> nat \<Rightarrow> nat \<Rightarrow>
   forest \<Rightarrow> error \<times> forest + forest" where
  "fit_tree_step rng order subsets n_features i self =
     (if i < length subsets then
        (let (x_subset, y_subset) = subsets ! i in
         if n_features = 0 \<and> max_features self \<noteq> Some 0 then Inl (ValueError, self)
         else
           let idx = feature_choice rng i in
           if i < length (the_forest self) then
             (let t1 = (the_forest self ! i)\<lparr>feature_indices := Some idx\<rparr>;
                  self1 = self\<lparr>the_forest := (the_forest self)[i := t1]\<rparr>
              in case select_columns x_subset idx of
                   Inl e \<Rightarrow> Inl (e, self1)
                 | Inr x_sel \<Rightarrow>
                     (case fit order t1 x_sel y_subset (forest_stopping_criteria self1) of
                        Inl (e, t') \<Rightarrow> Inl (e, self1\<lparr>the_forest := (the_forest self1)[i := t']\<rparr>)
                      | Inr t' \<Rightarrow> Inr (self1\<lparr>the_forest := (the_forest self1)[i := t']\<rparr>)))
           else Inl (IndexError, self))
      else Inl (IndexError, self))"

text \<open>
  \<open>RandomForest.fit\<close>. \<open>np.shape(x)[1]\<close> raises when \<open>x\<close> has no rows;
  \<open>max_features\<close> is resolved when it is \<open>None\<close> or \<open>0\<close>.
\<close>

definition forest_fit ::
  "draws \<Rightarrow> (val list \<Rightarrow> val list) \<Rightarrow> forest \<Rightarrow> row list \<Rightarrow> val list \<Rightarrow> error \<times> forest + forest" where
  "forest_fit rng order self x y =
     (case x of
        [] \<Rightarrow> Inl (IndexError, self)
      | x0 # _ \<Rightarrow>
          (let n_features = length x0;
               self1 = (if max_features self = None \<or> max_features self = Some 0
                        then self\<lparr>max_features := Some (isqrt n_features)\<rparr> else self)
           in case get_random_subsets rng x y (n_trees self1) of
                Inl e \<Rightarrow> Inl (e, self1)
              | Inr subsets \<Rightarrow>
                  sfold (fit_tree_step rng order subsets n_features) [0 ..< n_trees self1] self1))"

section \<open>Notions used in the statements and their proofs\<close>

text \<open>The count a histogram holds for a label, \<open>0\<close> when the label is not a key.\<close>

definition cnt :: "hist \<Rightarrow> val \<Rightarrow> nat" where
  "cnt h l = (case map_of h l of None \<Rightarrow> 0 | Some c \<Rightarrow> c)"

text \<open>What \<open>class_counts\<close> computes when every row has a label, from a given start.\<close>

definition labels_hist :: "row list \<Rightarrow> hist \<Rightarrow> hist" where
  "labels_hist rows h = fold (\<lambda>r. incr (last r)) rows h"

text \<open>The number of rows that carry a label.\<close>

definition count_label :: "row list \<Rightarrow> val \<Rightarrow> nat" where
  "count_label rows l = length (filter (\<lambda>r. last r = l) rows)"


text \<open>
  The rows a tree is trained on: a non-empty matrix with \<open>w\<close> feature columns and one
  label column, as \<open>fit\<close> builds it.
\<close>

definition training_rows :: "nat \<Rightarrow> row list \<Rightarrow> bool" where
  "training_rows w rows = (rows \<noteq> [] \<and> list_all (\<lambda>r. length r = Suc w) rows)"





text \<open>The best question so far asks about a column below \<open>n\<close>.\<close>

definition feature_inv :: "nat \<Rightarrow> rat \<times> question option \<Rightarrow> bool" where
  "feature_inv n st = (case snd st of None \<Rightarrow> True | Some q \<Rightarrow> feature q < n)"

text \<open>The row that \<open>merge_step\<close> appends for index \<open>i\<close>.\<close>

definition merged_row :: "row list \<Rightarrow> val list \<Rightarrow> nat \<Rightarrow> nat \<Rightarrow> error + row" where
  "merged_row x y width i =
     (if i < length y then
        (let r = x ! i @ [y ! i] in
         if length r = width then Inr r
         else if length r = 1 then Inr (replicate width (y ! i))
         else Inl ValueError)
      else Inl IndexError)"

text \<open>The predictions of one tree for the rows of a matrix: one column of the prediction matrix.\<close>

definition tree_column :: "row list \<Rightarrow> tree \<Rightarrow> error + val list" where
  "tree_column x t =
     (case feature_indices t of
        None \<Rightarrow> Inl AttributeError
      | Some idx \<Rightarrow>
          (case select_columns x idx of
             Inl e \<Rightarrow> Inl e
           | Inr x' \<Rightarrow> random_forest_predict t x'))"

text \<open>
  A fitted tree is what a call of \<open>fit\<close> on a matrix with \<open>w\<close> columns left. The trees of
  a fitted forest each carry their feature indices, drawn below the number \<open>F\<close> of
  columns of the training matrix, and were fitted on the columns these indices select
  (\<open>RandomForest.fit\<close> assigns \<open>feature_indices\<close> and then calls \<open>fit\<close> on
  \<open>x_subset[:, idx]\<close>).
\<close>

definition fitted_tree :: "nat \<Rightarrow> tree \<Rightarrow> bool" where
  "fitted_tree w t =
     (\<exists>order self x y sc. fit order self x y sc = Inr t \<and> length (hd x) = w)"

definition fitted_forest :: "nat \<Rightarrow> tree list \<Rightarrow> bool" where
  "fitted_forest F forest =
     (\<forall>t\<in>set forest. \<exists>idx. feature_indices t = Some idx \<and> (\<forall>j\<in>set idx. j < F)
                          \<and> fitted_tree (length idx) t)"

text \<open>The state of the forest when the first \<open>k\<close> trees have been fitted.\<close>

definition trees_fitted :: "nat \<Rightarrow> nat \<Rightarrow> nat \<Rightarrow> rat \<Rightarrow> nat \<Rightarrow> forest \<Rightarrow> bool" where
  "trees_fitted F mf n sc k self =
     (length (the_forest self) = n \<and> max_features self = Some mf
      \<and> forest_stopping_criteria self = sc \<and> n_trees self = n
      \<and> fitted_forest F (take k (the_forest self)))"

section \<open>Histograms and the value of the Gini impurity\<close>

lemma cnt_Nil: "cnt [] k = 0"
  by (simp add: cnt_def)

lemma incr_keys: "set (map fst (incr l h)) = insert l (set (map fst h))"
  by (induction l h rule: incr.induct) auto

lemma incr_fst_set: "fst ` set (incr l h) = insert l (fst ` set h)"
  using incr_keys[of l h] by simp

lemma incr_distinct: "distinct (map fst h) \<Longrightarrow> distinct (map fst (incr l h))"
  by (induction l h rule: incr.induct) (auto simp: incr_fst_set)

lemma incr_sum: "sum_list (map snd (incr l h)) = Suc (sum_list (map snd h))"
  by (induction l h rule: incr.induct) auto

lemma incr_cnt: "cnt (incr l h) k = cnt h k + (if k = l then 1 else 0)"
  by (induction l h rule: incr.induct) (auto simp: cnt_def)

lemma incr_pos: "\<forall>e\<in>set h. 0 < snd e \<Longrightarrow> \<forall>e\<in>set (incr l h). 0 < snd e"
  by (induction l h rule: incr.induct) auto

lemma labels_hist_keys:
  "fst ` set (labels_hist rows h) = fst ` set h \<union> last ` set rows"
  unfolding labels_hist_def by (induction rows arbitrary: h) (auto simp: incr_fst_set)

lemma labels_hist_distinct:
  "distinct (map fst h) \<Longrightarrow> distinct (map fst (labels_hist rows h))"
  unfolding labels_hist_def by (induction rows arbitrary: h) (auto simp: incr_distinct)

lemma labels_hist_sum:
  "sum_list (map snd (labels_hist rows h)) = sum_list (map snd h) + length rows"
  unfolding labels_hist_def by (induction rows arbitrary: h) (auto simp: incr_sum)

lemma labels_hist_cnt:
  "cnt (labels_hist rows h) k = cnt h k + length (filter (\<lambda>r. last r = k) rows)"
  unfolding labels_hist_def by (induction rows arbitrary: h) (auto simp: incr_cnt)

lemma labels_hist_pos:
  "\<forall>e\<in>set h. 0 < snd e \<Longrightarrow> \<forall>e\<in>set (labels_hist rows h). 0 < snd e"
  unfolding labels_hist_def
proof (induction rows arbitrary: h)
  case Nil
  then show ?case by simp
next
  case (Cons r rows)
  show ?case using Cons.IH[OF incr_pos[OF Cons.prems]] by simp
qed

lemma class_counts_eq:
  assumes "\<forall>r\<in>set rows. r \<noteq> []"
  shows "class_counts rows = Inr (labels_hist rows [])"
  unfolding class_counts_def labels_hist_def
  by (rule efold_pure) (use assms in \<open>auto simp: count_row_def\<close>)

lemma class_counts_Inr:
  assumes "class_counts rows = Inr h"
  shows "\<forall>r\<in>set rows. r \<noteq> []"
proof
  fix r assume "r \<in> set rows"
  from efold_Inr_elem[OF assms[unfolded class_counts_def] this]
  show "r \<noteq> []" by (auto simp: count_row_def split: if_splits)
qed

lemma hist_entry_cnt:
  assumes "distinct (map fst h)" and "(k, c) \<in> set h"
  shows "cnt h k = c"
  using assms by (simp add: cnt_def)

lemma gini_fold_value:
  assumes "n \<noteq> 0"
  shows "efold (gini_step n) h imp = Inr (imp - sum_list (map (\<lambda>e. (of_nat (snd e) / n)\<^sup>2) h))"
  using assms by (induction h arbitrary: imp) (auto simp: gini_step_def algebra_simps)

lemma hist_sum_as_labels:
  assumes "distinct (map fst h)"
  shows "sum_list (map (\<lambda>e. F (snd e)) h) = (\<Sum>l\<in>fst ` set h. F (cnt h l))"
proof -
  have "map (\<lambda>e. F (snd e)) h = map ((\<lambda>l. F (cnt h l)) \<circ> fst) h"
    by (rule map_cong) (use hist_entry_cnt[OF assms] in auto)
  then have eq: "map (\<lambda>e. F (snd e)) h = map (\<lambda>l. F (cnt h l)) (map fst h)"
    by (simp only: map_map)
  have "sum_list (map (\<lambda>e. F (snd e)) h) = sum_list (map (\<lambda>l. F (cnt h l)) (map fst h))"
    by (simp only: eq)
  also have "\<dots> = (\<Sum>l\<in>set (map fst h). F (cnt h l))"
    by (rule sum_list_distinct_conv_sum_set[OF assms])
  finally show ?thesis by simp
qed

lemma gini_value:
  assumes "\<forall>r\<in>set rows. r \<noteq> []" and "rows \<noteq> []"
  shows "gini rows =
         Inr (1 - (\<Sum>l\<in>last ` set rows. (of_nat (count_label rows l) / of_nat (length rows))\<^sup>2))"
proof -
  let ?h = "labels_hist rows []"
  have d: "distinct (map fst ?h)" by (simp add: labels_hist_distinct)
  have n: "(of_nat (length rows) :: rat) \<noteq> 0" using assms(2) by simp
  have "gini rows = Inr (1 - sum_list (map (\<lambda>e. (of_nat (snd e) / of_nat (length rows))\<^sup>2) ?h))"
    by (simp add: gini_def class_counts_eq[OF assms(1)] gini_fold_value[OF n])
  also have "sum_list (map (\<lambda>e. (of_nat (snd e) / (of_nat (length rows)::rat))\<^sup>2) ?h)
             = (\<Sum>l\<in>fst ` set ?h. (of_nat (cnt ?h l) / of_nat (length rows))\<^sup>2)"
    by (rule hist_sum_as_labels[OF d])
  also have "\<dots> = (\<Sum>l\<in>last ` set rows. (of_nat (count_label rows l) / of_nat (length rows))\<^sup>2)"
    by (rule sum.cong) (simp_all add: labels_hist_keys labels_hist_cnt count_label_def cnt_Nil)
  finally show ?thesis .
qed

lemma gini_total:
  assumes "\<forall>r\<in>set rows. r \<noteq> []"
  shows "\<exists>g. gini rows = Inr g"
proof (cases "rows = []")
  case True
  then show ?thesis by (simp add: gini_Nil)
next
  case False
  with gini_value[OF assms] show ?thesis by simp
qed



section \<open>The range of the Gini impurity\<close>












section \<open>The builder case by case, and splits with an empty side\<close>

lemma find_best_split_eligible:
  assumes "find_best_split order sc rows = Inr (gain, Some q)"
    and "partition_rows rows (Some q) = Inr (t, f)"
  shows "sc \<le> of_nat (length t)" and "sc \<le> of_nat (length f)"
    and "\<exists>cur. gini rows = Inr cur \<and> info_gain t f cur = Inr gain"
  using find_best_split_inv[OF assms(1)] assms(2) by (auto simp: split_inv_def)

lemma gini_class_counts:
  assumes "gini rows = Inr g"
  shows "\<exists>h. class_counts rows = Inr h"
  using assms by (auto simp: gini_def ebind_eq_Inr)

lemma build_leaf:
  assumes "find_best_split order sc rows = Inr (0, qo)"
  shows "\<exists>h. class_counts rows = Inr h \<and> build order sc rows = Inr (Leaf h)"
proof -
  from find_best_split_inv[OF assms] obtain cur where "gini rows = Inr cur" by blast
  from gini_class_counts[OF this] obtain h where h: "class_counts rows = Inr h" ..
  have "build order sc rows = Inr (Leaf h)"
    by (subst build.simps) (simp add: assms h)
  with h show ?thesis by blast
qed

lemma build_cases:
  assumes "build order sc rows = Inr node"
  obtains (leaf) qo h where "find_best_split order sc rows = Inr (0, qo)"
      and "class_counts rows = Inr h" and "node = Leaf h"
  | (split) gain q t f tb fb where "find_best_split order sc rows = Inr (gain, Some q)"
      and "gain \<noteq> 0" and "partition_rows rows (Some q) = Inr (t, f)"
      and "build order sc t = Inr tb" and "build order sc f = Inr fb"
      and "node = Decision (Some q) (Some tb) (Some fb)"
proof -
  from assms obtain gain qo where s: "find_best_split order sc rows = Inr (gain, qo)"
    by (subst (asm) build.simps) (auto split: sum.splits)
  show thesis
  proof (cases "gain = 0")
    case True
    with build_leaf[of order sc rows qo] s assms leaf show thesis by auto
  next
    case False
    from assms s False obtain t f tb fb where p: "partition_rows rows qo = Inr (t, f)"
      and tb: "build order sc t = Inr tb" and fb: "build order sc f = Inr fb"
      and n: "node = Decision qo (Some tb) (Some fb)"
      by (subst (asm) build.simps) (auto split: sum.splits)
    from find_best_split_inv[OF s] have ne: "rows \<noteq> []" by blast
    with p obtain q where q: "qo = Some q" by (cases qo) (auto dest: partition_rows_None)
    from split[OF s[unfolded q] False p[unfolded q] tb fb n[unfolded q]] show thesis .
  qed
qed

text \<open>
  C10. \<open>gini\<close> of the empty row set returns \<open>1\<close> without dividing; the information
  gain of a split of a non-empty row set that leaves one side empty is \<open>0\<close>; and when
  the question chosen by the split search leaves one side empty, the returned gain is
  \<open>0\<close> and \<open>build\<close> returns a leaf holding the histogram of the rows.
\<close>

theorem empty_side_makes_leaf:
  "gini [] = Inr 1
   \<and> (rows \<noteq> [] \<and> gini rows = Inr g \<longrightarrow>
        info_gain [] rows g = Inr 0 \<and> info_gain rows [] g = Inr 0)
   \<and> (find_best_split order sc rows = Inr (gain, Some q)
        \<and> partition_rows rows (Some q) = Inr (t, f) \<and> (t = [] \<or> f = []) \<longrightarrow>
        gain = 0 \<and> (\<exists>h. class_counts rows = Inr h \<and> build order sc rows = Inr (Leaf h)))"
proof (intro conjI impI)
  show "gini [] = Inr 1" by (rule gini_Nil)
next
  assume "rows \<noteq> [] \<and> gini rows = Inr g"
  then show "info_gain [] rows g = Inr 0" by (simp add: info_gain_left_empty)
next
  assume "rows \<noteq> [] \<and> gini rows = Inr g"
  then show "info_gain rows [] g = Inr 0" by (simp add: info_gain_right_empty)
next
  assume a: "find_best_split order sc rows = Inr (gain, Some q)
        \<and> partition_rows rows (Some q) = Inr (t, f) \<and> (t = [] \<or> f = [])"
  then have s: "find_best_split order sc rows = Inr (gain, Some q)"
    and p: "partition_rows rows (Some q) = Inr (t, f)" and e: "t = [] \<or> f = []" by simp_all
  from find_best_split_inv[OF s] obtain cur where cur: "gini rows = Inr cur" and ne: "rows \<noteq> []"
    by blast
  from find_best_split_eligible(3)[OF s p] cur have g: "info_gain t f cur = Inr gain" by simp
  from e show g0: "gain = 0"
  proof
    assume "t = []"
    with partition_rows_empty_side(1)[OF p] g info_gain_left_empty[OF cur ne] show ?thesis by simp
  next
    assume "f = []"
    with partition_rows_empty_side(2)[OF p] g info_gain_right_empty[OF cur ne] show ?thesis by simp
  qed
  from build_leaf[of order sc rows "Some q"] s g0
  show "\<exists>h. class_counts rows = Inr h \<and> build order sc rows = Inr (Leaf h)" by simp
qed

theorem empty_side_makes_leaf_witness:
  "[[1, 0::rat]] \<noteq> [] \<and> gini [[1, 0]] = Inr 0
   \<and> find_best_split remdups (- 1) [[1, 0]] = Inr (0, Some \<lparr>feature = 0, split_value = 1\<rparr>)
   \<and> partition_rows [[1, 0]] (Some \<lparr>feature = 0, split_value = 1\<rparr>) = Inr ([[1, 0]], [])
   \<and> info_gain [] [[1, 0]] 0 = Inr 0 \<and> info_gain [[1, 0]] [] 0 = Inr 0
   \<and> build remdups (- 1) [[1, 0]] = Inr (Leaf [(0, 1)])"
proof -
  have g: "gini [[1, 0]] = Inr 0" by code_simp
  have s: "find_best_split remdups (- 1) [[1, 0]]
           = Inr (0, Some \<lparr>feature = 0, split_value = 1\<rparr>)" by code_simp
  have p: "partition_rows [[1, 0]] (Some \<lparr>feature = 0, split_value = 1\<rparr>) = Inr ([[1, 0]], [])"
    by code_simp
  have c: "class_counts [[1, 0]] = Inr [(0, 1)]" by code_simp
  note t = empty_side_makes_leaf[where rows = "[[1, 0]]" and g = 0 and order = remdups
      and sc = "- 1" and gain = 0 and q = "\<lparr>feature = 0, split_value = 1\<rparr>"
      and t = "[[1, 0]]" and f = "[]"]
  from t g s p c show ?thesis by simp
qed

section \<open>The split search\<close>



lemma efold_collect_Inr:
  assumes "\<And>x acc. step x acc = (case f x of Inl e \<Rightarrow> Inl e | Inr v \<Rightarrow> Inr (acc @ [v]))"
    and "efold step xs acc = Inr res"
  shows "\<exists>vs. res = acc @ vs \<and> map f xs = map Inr vs"
  using assms(2)
proof (induction xs arbitrary: acc)
  case Nil
  then show ?case by simp
next
  case (Cons x xs)
  from Cons.prems assms(1)[of x acc] obtain v where v: "f x = Inr v"
    and r: "efold step xs (acc @ [v]) = Inr res"
    by (auto split: sum.splits)
  from Cons.IH[OF r] obtain vs where "res = (acc @ [v]) @ vs" "map f xs = map Inr vs" by blast
  with v have "res = acc @ (v # vs) \<and> map f (x # xs) = map Inr (v # vs)" by simp
  then show ?case by blast
qed

lemma efold_collect_total:
  assumes "\<And>x acc. step x acc = (case f x of Inl e \<Rightarrow> Inl e | Inr v \<Rightarrow> Inr (acc @ [v]))"
    and "map f xs = map Inr vs"
  shows "efold step xs acc = Inr (acc @ vs)"
  using assms(2)
proof (induction xs arbitrary: acc vs)
  case Nil
  then show ?case by simp
next
  case (Cons x xs)
  from Cons.prems obtain v vs' where vs: "vs = v # vs'" and v: "f x = Inr v"
    and m: "map f xs = map Inr vs'" by (cases vs) auto
  from Cons.IH[OF m, of "acc @ [v]"] v vs assms(1)[of x acc] show ?case by simp
qed

lemma collected_nth:
  assumes "map f xs = map Inr vs"
  shows "length vs = length xs" and "\<And>i. i < length xs \<Longrightarrow> f (xs ! i) = Inr (vs ! i)"
proof -
  from map_eq_imp_length_eq[OF assms] show len: "length vs = length xs" by simp
  fix i assume i: "i < length xs"
  have "map f xs ! i = map Inr vs ! i" using assms by simp
  with i len show "f (xs ! i) = Inr (vs ! i)" by simp
qed


lemma column_total:
  assumes "\<forall>r\<in>set rows. col < length r"
  shows "column col rows = Inr (map (\<lambda>r. r ! col) rows)"
proof -
  have st: "\<And>r acc. column_step col r acc =
      (case (if col < length r then Inr (r ! col) else Inl IndexError) of
         Inl e \<Rightarrow> Inl e | Inr v \<Rightarrow> Inr (acc @ [v]))"
    by (simp add: column_step_def)
  have m: "map (\<lambda>r. if col < length r then Inr (r ! col) else Inl IndexError) rows
           = map Inr (map (\<lambda>r. r ! col) rows)"
    using assms by simp
  from efold_collect_total[where f = "\<lambda>r. if col < length r then Inr (r ! col) else Inl IndexError",
      OF st m, of "[]"]
  show ?thesis by (simp add: column_def)
qed



lemma info_gain_total:
  assumes "\<forall>r\<in>set t. r \<noteq> []" and "\<forall>r\<in>set f. r \<noteq> []" and "t \<noteq> [] \<or> f \<noteq> []"
  shows "\<exists>g. info_gain t f cur = Inr g"
proof -
  from gini_total[OF assms(1)] obtain gl where gl: "gini t = Inr gl" ..
  from gini_total[OF assms(2)] obtain gr where gr: "gini f = Inr gr" ..
  from assms(3) have "length t + length f \<noteq> 0" by auto
  with gl gr show ?thesis by (simp add: info_gain_def Let_def)
qed

lemma try_split_total:
  assumes "\<forall>r\<in>set rows. col < length r" and "rows \<noteq> []"
  shows "\<exists>st'. try_split sc rows cur col v st = Inr st'"
proof -
  let ?q = "\<lparr>feature = col, split_value = v\<rparr>"
  let ?t = "filter (\<lambda>r. r ! col \<ge> v) rows" and ?f = "filter (\<lambda>r. \<not> r ! col \<ge> v) rows"
  have p: "partition_rows rows (Some ?q) = Inr (?t, ?f)"
    using partition_rows_total[of rows ?q] assms(1) by simp
  have "length ?t + length ?f = length rows" by (rule sum_length_filter_compl)
  with assms(2) have ne: "?t \<noteq> [] \<or> ?f \<noteq> []" by (metis add_is_0 length_0_conv)
  have "\<exists>g. info_gain ?t ?f cur = Inr g"
    by (rule info_gain_total[OF _ _ ne]) (use assms(1) in auto)
  then obtain g where "info_gain ?t ?f cur = Inr g" ..
  with p show ?thesis by (simp add: try_split_def)
qed

lemma try_column_total:
  assumes "\<forall>r\<in>set rows. col < length r" and "rows \<noteq> []"
  shows "\<exists>st'. try_column order sc rows cur col st = Inr st'"
proof -
  have "\<exists>st'. efold (try_split sc rows cur col) (order (map (\<lambda>r. r ! col) rows)) st = Inr st'"
    by (rule efold_total) (rule try_split_total[OF assms])
  then show ?thesis by (simp add: try_column_def column_total[OF assms(1)])
qed

lemma training_rows_length: "training_rows w rows \<Longrightarrow> r \<in> set rows \<Longrightarrow> length r = Suc w"
  by (simp add: training_rows_def list_all_iff)

lemma find_best_split_total:
  assumes "training_rows w rows"
  shows "\<exists>st. find_best_split order sc rows = Inr st"
proof -
  from assms obtain r0 rest where rows: "rows = r0 # rest"
    by (cases rows) (simp_all add: training_rows_def)
  have len: "\<And>r. r \<in> set rows \<Longrightarrow> length r = Suc w"
    using assms by (rule training_rows_length)
  then have "\<forall>r\<in>set rows. r \<noteq> []" by fastforce
  from gini_total[OF this] obtain cur where cur: "gini rows = Inr cur" ..
  have "\<exists>st. efold (try_column order sc rows cur) [0 ..< length r0 - 1] (0, None) = Inr st"
  proof (rule efold_total)
    fix col a assume "col \<in> set [0 ..< length r0 - 1]"
    with len[of r0] rows have "col < w" by simp
    with len have "\<forall>r\<in>set rows. col < length r" by simp
    then show "\<exists>b. try_column order sc rows cur col a = Inr b"
      by (rule try_column_total) (simp add: rows)
  qed
  with cur rows show ?thesis by (simp add: find_best_split_def)
qed












section \<open>Termination and depth of the builder\<close>

lemma training_rows_sub:
  assumes "training_rows w rows" and "set rows' \<subseteq> set rows" and "rows' \<noteq> []"
  shows "training_rows w rows'"
  using assms by (auto simp: training_rows_def list_all_iff)

lemma accepted_split:
  assumes "find_best_split order sc rows = Inr (gain, qo)" and "gain \<noteq> 0"
  shows "\<exists>q t f. qo = Some q \<and> partition_rows rows (Some q) = Inr (t, f)
           \<and> sc \<le> of_nat (length t) \<and> sc \<le> of_nat (length f)
           \<and> t \<noteq> [] \<and> f \<noteq> [] \<and> length t + length f = length rows
           \<and> set t \<subseteq> set rows \<and> set f \<subseteq> set rows"
proof -
  from find_best_split_inv[OF assms(1)] assms(2) obtain q t f where q: "qo = Some q"
    and p: "partition_rows rows (Some q) = Inr (t, f)"
    and sc: "sc \<le> of_nat (length t)" "sc \<le> of_nat (length f)"
    by (cases qo) (auto simp: split_inv_def)
  from find_best_split_shrinks[OF assms(1)[unfolded q] assms(2) p]
  have lt: "length t < length rows" "length f < length rows" .
  from partition_rows_length[OF p] have len: "length t + length f = length rows" .
  with lt have "t \<noteq> []" "f \<noteq> []" by auto
  moreover from partition_rows_Inr(1,2)[OF p] have "set t \<subseteq> set rows" "set f \<subseteq> set rows"
    by auto
  ultimately show ?thesis using q p sc len by blast
qed

lemma class_counts_total:
  assumes "training_rows w rows"
  shows "class_counts rows = Inr (labels_hist rows [])"
proof (rule class_counts_eq)
  show "\<forall>r\<in>set rows. r \<noteq> []"
    using training_rows_length[OF assms] by fastforce
qed

lemma build_total:
  assumes "training_rows w rows"
  shows "\<exists>node. build order sc rows = Inr node"
  using assms
proof (induction "length rows" arbitrary: rows rule: less_induct)
  case less
  from find_best_split_total[OF less.prems] obtain gain qo where
    s: "find_best_split order sc rows = Inr (gain, qo)" by (metis surj_pair)
  show ?case
  proof (cases "gain = 0")
    case True
    with build_leaf[of order sc rows qo] s show ?thesis by auto
  next
    case False
    from accepted_split[OF s False] obtain q t f where q: "qo = Some q"
      and p: "partition_rows rows (Some q) = Inr (t, f)"
      and ne: "t \<noteq> []" "f \<noteq> []" and len: "length t + length f = length rows"
      and sub: "set t \<subseteq> set rows" "set f \<subseteq> set rows" by blast
    from ne len have lt: "length t < length rows" "length f < length rows"
      by (cases t; cases f; simp)+
    from less.hyps[OF lt(1) training_rows_sub[OF less.prems sub(1) ne(1)]]
    obtain tb where tb: "build order sc t = Inr tb" ..
    from less.hyps[OF lt(2) training_rows_sub[OF less.prems sub(2) ne(2)]]
    obtain fb where fb: "build order sc f = Inr fb" ..
    have "build order sc rows = Inr (Decision (Some q) (Some tb) (Some fb))"
      by (subst build.simps) (simp add: s q False p tb fb)
    then show ?thesis ..
  qed
qed

lemma build_depth:
  assumes "build order sc rows = Inr node" and "0 < sc"
  shows "of_nat (depth node) * sc \<le> of_nat (length rows)"
  using assms(1)
proof (induction "length rows" arbitrary: rows node rule: less_induct)
  case less
  from less.prems show ?case
  proof (cases rule: build_cases)
    case (leaf qo h)
    then show ?thesis by simp
  next
    case (split gain q t f tb fb)
    from accepted_split[OF split(1,2)] split(3) have
      sc: "sc \<le> of_nat (length t)" "sc \<le> of_nat (length f)"
      and ne: "t \<noteq> []" "f \<noteq> []" and len: "length t + length f = length rows" by auto
    from ne len have lt: "length t < length rows" "length f < length rows"
      by (cases t; cases f; simp)+
    have rl: "(of_nat (length rows) :: rat) = of_nat (length t) + of_nat (length f)"
      using len by (metis of_nat_add)
    have dt: "of_nat (depth tb) * sc \<le> of_nat (length t)" by (rule less.hyps[OF lt(1) split(4)])
    have df: "of_nat (depth fb) * sc \<le> of_nat (length f)" by (rule less.hyps[OF lt(2) split(5)])
    have "of_nat (max (depth tb) (depth fb)) * sc + sc \<le> of_nat (length rows)"
    proof (cases "depth tb \<le> depth fb")
      case True
      then have "max (depth tb) (depth fb) = depth fb" by simp
      with df sc(1) rl show ?thesis by simp
    next
      case False
      then have "max (depth tb) (depth fb) = depth tb" by simp
      with dt sc(2) rl show ?thesis by simp
    qed
    then show ?thesis by (simp add: split(6) algebra_simps)
  qed
qed

text \<open>
  C5. For a training matrix and a positive floor, \<open>build\<close> (a total function: its
  recursion is well founded) returns a node and no exception; a split that the search
  accepts leaves on each side at most the row count minus the floor, and fewer rows than
  before; and the depth of the tree is at most the row count divided by the floor.
\<close>

theorem build_terminates:
  assumes "training_rows w rows" and "0 < sc"
  shows "\<exists>node. build order sc rows = Inr node
           \<and> of_nat (depth node) \<le> of_nat (length rows) / sc
           \<and> (\<forall>gain q t f.
                 find_best_split order sc rows = Inr (gain, Some q) \<and> gain \<noteq> 0
                 \<and> partition_rows rows (Some q) = Inr (t, f) \<longrightarrow>
                 of_nat (length t) \<le> of_nat (length rows) - sc
                 \<and> of_nat (length f) \<le> of_nat (length rows) - sc
                 \<and> length t < length rows \<and> length f < length rows)"
proof -
  from build_total[OF assms(1)] obtain node where b: "build order sc rows = Inr node" ..
  from build_depth[OF b assms(2)] assms(2)
  have d: "of_nat (depth node) \<le> of_nat (length rows) / sc" by (simp add: pos_le_divide_eq)
  have "of_nat (length t) \<le> of_nat (length rows) - sc
        \<and> of_nat (length f) \<le> of_nat (length rows) - sc
        \<and> length t < length rows \<and> length f < length rows"
    if s: "find_best_split order sc rows = Inr (gain, Some q)" and g: "gain \<noteq> 0"
      and p: "partition_rows rows (Some q) = Inr (t, f)" for gain q t f
  proof -
    from accepted_split[OF s g] p have
      sc: "sc \<le> of_nat (length t)" "sc \<le> of_nat (length f)"
      and ne: "t \<noteq> []" "f \<noteq> []" and len: "length t + length f = length rows" by auto
    have rl: "(of_nat (length rows) :: rat) = of_nat (length t) + of_nat (length f)"
      using len by (metis of_nat_add)
    from ne len have "length t < length rows" "length f < length rows"
      by (cases t; cases f; simp)+
    with sc rl show ?thesis by simp
  qed
  with b d show ?thesis by blast
qed

theorem build_terminates_witness:
  "training_rows 1 [[1, 0], [2, 0], [3, 1], [4, 1]] \<and> (0::rat) < 1
   \<and> build remdups 1 [[1, 0], [2, 0], [3, 1], [4, 1]]
       = Inr (Decision (Some \<lparr>feature = 0, split_value = 3\<rparr>)
               (Some (Leaf [(1, 2)])) (Some (Leaf [(0, 2)])))
   \<and> (\<exists>node. build remdups 1 [[1, 0], [2, 0], [3, 1], [4, 1]] = Inr node
           \<and> of_nat (depth node) \<le> of_nat (length [[1, 0], [2, 0], [3, 1], [4, 1::rat]]) / (1::rat)
           \<and> (\<forall>gain q t f.
                 find_best_split remdups 1 [[1, 0], [2, 0], [3, 1], [4, 1]] = Inr (gain, Some q)
                 \<and> gain \<noteq> 0
                 \<and> partition_rows [[1, 0], [2, 0], [3, 1], [4, 1]] (Some q) = Inr (t, f) \<longrightarrow>
                 of_nat (length t) \<le> of_nat (length [[1, 0], [2, 0], [3, 1], [4, 1::rat]]) - (1::rat)
                 \<and> of_nat (length f) \<le> of_nat (length [[1, 0], [2, 0], [3, 1], [4, 1::rat]]) - (1::rat)
                 \<and> length t < length [[1, 0], [2, 0], [3, 1], [4, 1::rat]]
                 \<and> length f < length [[1, 0], [2, 0], [3, 1], [4, 1::rat]]))"
proof -
  have h1: "training_rows 1 [[1, 0], [2, 0], [3, 1], [4, 1]]" by (simp add: training_rows_def)
  have h2: "(0::rat) < 1" by simp
  have v: "build remdups 1 [[1, 0], [2, 0], [3, 1], [4, 1]]
       = Inr (Decision (Some \<lparr>feature = 0, split_value = 3\<rparr>)
               (Some (Leaf [(1, 2)])) (Some (Leaf [(0, 2)])))" by code_simp
  note t = build_terminates[OF h1 h2, of remdups]
  from h1 h2 v t show ?thesis by (intro conjI)
qed

section \<open>Decision nodes of a built tree\<close>

lemma subnodes_self: "n \<in> subnodes n"
  by (cases n) simp_all

lemma subnode_built:
  assumes "build order sc rows = Inr rt" and "n \<in> subnodes rt"
  shows "\<exists>prows. build order sc prows = Inr n \<and> set prows \<subseteq> set rows \<and> prows \<noteq> []"
  using assms
proof (induction "length rows" arbitrary: rows rt rule: less_induct)
  case less
  from less.prems(1) show ?case
  proof (cases rule: build_cases)
    case (leaf qo h)
    from find_best_split_inv[OF leaf(1)] have "rows \<noteq> []" by blast
    with leaf less.prems show ?thesis by auto
  next
    case (split gain q t f tb fb)
    from accepted_split[OF split(1,2)] split(3) have
      ne: "t \<noteq> []" "f \<noteq> []" and len: "length t + length f = length rows"
      and sub: "set t \<subseteq> set rows" "set f \<subseteq> set rows" by auto
    from ne len have lt: "length t < length rows" "length f < length rows"
      by (cases t; cases f; simp)+
    from less.prems(2) split(6) consider "n = rt" | "n \<in> subnodes tb" | "n \<in> subnodes fb"
      by auto
    then show ?thesis
    proof cases
      case 1
      from find_best_split_inv[OF split(1)] have "rows \<noteq> []" by blast
      with 1 less.prems(1) show ?thesis by auto
    next
      case 2
      from less.hyps[OF lt(1) split(4) 2] sub(1) show ?thesis by blast
    next
      case 3
      from less.hyps[OF lt(2) split(5) 3] sub(2) show ?thesis by blast
    qed
  qed
qed

lemma build_node_rows:
  assumes "build order sc rows = Inr node"
  shows "node_rows node = length rows"
  using assms
proof (induction "length rows" arbitrary: rows node rule: less_induct)
  case less
  from less.prems show ?case
  proof (cases rule: build_cases)
    case (leaf qo h)
    from class_counts_eq[OF class_counts_Inr[OF leaf(2)]] leaf(2)
    have "h = labels_hist rows []" by simp
    with leaf(3) show ?thesis by (simp add: labels_hist_sum)
  next
    case (split gain q t f tb fb)
    from accepted_split[OF split(1,2)] split(3) have
      ne: "t \<noteq> []" "f \<noteq> []" and len: "length t + length f = length rows" by auto
    from ne len have lt: "length t < length rows" "length f < length rows"
      by (cases t; cases f; simp)+
    from less.hyps[OF lt(1) split(4)] less.hyps[OF lt(2) split(5)] len split(6)
    show ?thesis by simp
  qed
qed

text \<open>
  C6. In a tree that \<open>build\<close> returns, every decision node holds a question and two
  branches, none of them null; the node was built from a row list whose partition by
  the question gave each branch at least \<open>stopping_criteria\<close> rows, and each branch
  is the tree built from its side (whose leaves count exactly those rows).
\<close>

theorem decision_branches:
  assumes "build order sc rows = Inr built" and "Decision qo tb fb \<in> subnodes built"
  shows "\<exists>q t f prows true_rows false_rows.
           qo = Some q \<and> tb = Some t \<and> fb = Some f
           \<and> set prows \<subseteq> set rows
           \<and> build order sc prows = Inr (Decision qo tb fb)
           \<and> partition_rows prows (Some q) = Inr (true_rows, false_rows)
           \<and> build order sc true_rows = Inr t \<and> build order sc false_rows = Inr f
           \<and> sc \<le> of_nat (length true_rows) \<and> sc \<le> of_nat (length false_rows)
           \<and> node_rows t = length true_rows \<and> node_rows f = length false_rows"
proof -
  from subnode_built[OF assms] obtain prows where
    b: "build order sc prows = Inr (Decision qo tb fb)" and sub: "set prows \<subseteq> set rows"
    by blast
  from b show ?thesis
  proof (cases rule: build_cases)
    case (leaf qo' h)
    then show ?thesis by simp
  next
    case (split gain q t f tn fn)
    from accepted_split[OF split(1,2)] split(3) have
      sc: "sc \<le> of_nat (length t)" "sc \<le> of_nat (length f)" by auto
    from split(6) have "qo = Some q" "tb = Some tn" "fb = Some fn" by simp_all
    with sub b split(3,4,5) sc build_node_rows[OF split(4)] build_node_rows[OF split(5)]
    show ?thesis by blast
  qed
qed

theorem decision_branches_witness:
  "build remdups 1 [[1, 0], [2, 0], [3, 1], [4, 1]]
     = Inr (Decision (Some \<lparr>feature = 0, split_value = 3\<rparr>)
              (Some (Leaf [(1, 2)])) (Some (Leaf [(0, 2)])))
   \<and> Decision (Some \<lparr>feature = 0, split_value = 3\<rparr>) (Some (Leaf [(1, 2)])) (Some (Leaf [(0, 2)]))
       \<in> subnodes (Decision (Some \<lparr>feature = 0, split_value = 3\<rparr>)
                     (Some (Leaf [(1, 2)])) (Some (Leaf [(0, 2)])))
   \<and> (\<exists>q t f prows true_rows false_rows.
           Some \<lparr>feature = 0, split_value = 3\<rparr> = Some q
           \<and> Some (Leaf [(1, 2)]) = Some t \<and> Some (Leaf [(0, 2)]) = Some f
           \<and> set prows \<subseteq> set [[1, 0], [2, 0], [3, 1], [4, 1]]
           \<and> build remdups 1 prows
               = Inr (Decision (Some \<lparr>feature = 0, split_value = 3\<rparr>)
                        (Some (Leaf [(1, 2)])) (Some (Leaf [(0, 2)])))
           \<and> partition_rows prows (Some q) = Inr (true_rows, false_rows)
           \<and> build remdups 1 true_rows = Inr t \<and> build remdups 1 false_rows = Inr f
           \<and> (1::rat) \<le> of_nat (length true_rows) \<and> (1::rat) \<le> of_nat (length false_rows)
           \<and> node_rows t = length true_rows \<and> node_rows f = length false_rows)"
proof -
  have h1: "build remdups 1 [[1, 0], [2, 0], [3, 1], [4, 1]]
     = Inr (Decision (Some \<lparr>feature = 0, split_value = 3\<rparr>)
              (Some (Leaf [(1, 2)])) (Some (Leaf [(0, 2)])))" by code_simp
  have h2: "Decision (Some \<lparr>feature = 0, split_value = 3\<rparr>) (Some (Leaf [(1, 2)])) (Some (Leaf [(0, 2)]))
       \<in> subnodes (Decision (Some \<lparr>feature = 0, split_value = 3\<rparr>)
                     (Some (Leaf [(1, 2)])) (Some (Leaf [(0, 2)])))" by simp
  note t = decision_branches[OF h1 h2]
  from h1 h2 t show ?thesis by (intro conjI)
qed

section \<open>Classification\<close>

lemma top_pick_scan:
  assumes "fold top_pick_step h (c0, n0) = (c, n)"
  shows "(\<forall>e\<in>set h. snd e \<le> n) \<and> n0 \<le> n
         \<and> ((c, n) = (c0, n0)
             \<or> (\<exists>i<length h. h ! i = (c, n) \<and> n0 < n \<and> (\<forall>j<i. snd (h ! j) < n)))"
  using assms
proof (induction h arbitrary: c n rule: rev_induct)
  case Nil
  then show ?case by simp
next
  case (snoc e h)
  obtain c' n' where f: "fold top_pick_step h (c0, n0) = (c', n')" by (cases "fold top_pick_step h (c0, n0)")
  note ih = snoc.IH[OF f]
  from snoc.prems have "top_pick_step e (fold top_pick_step h (c0, n0)) = (c, n)" by simp
  then have st: "top_pick_step e (c', n') = (c, n)" by (simp only: f)
  show ?case
  proof (cases "snd e > n'")
    case True
    with st have e: "e = (c, n)" by (simp add: top_pick_step_def)
    from ih True e have a: "\<forall>x\<in>set (h @ [e]). snd x \<le> n" by auto
    from ih True e have b: "n0 < n" by auto
    have "(h @ [e]) ! length h = (c, n)" using e by simp
    moreover have "\<forall>j<length h. snd ((h @ [e]) ! j) < n"
    proof (intro allI impI)
      fix j assume j: "j < length h"
      then have "h ! j \<in> set h" by simp
      with ih have "snd (h ! j) \<le> n'" by blast
      with True e j show "snd ((h @ [e]) ! j) < n" by (simp add: nth_append)
    qed
    ultimately have "\<exists>i<length (h @ [e]). (h @ [e]) ! i = (c, n) \<and> n0 < n
                       \<and> (\<forall>j<i. snd ((h @ [e]) ! j) < n)"
      using b by (intro exI[of _ "length h"]) simp
    with a b show ?thesis by simp
  next
    case False
    with st have e: "(c, n) = (c', n')" by (simp add: top_pick_step_def)
    from ih False e have a: "\<forall>x\<in>set (h @ [e]). snd x \<le> n" by auto
    from ih e have b: "n0 \<le> n" by simp
    from ih e have "(c, n) = (c0, n0)
       \<or> (\<exists>i<length h. h ! i = (c, n) \<and> n0 < n \<and> (\<forall>j<i. snd (h ! j) < n))" by simp
    then have "(c, n) = (c0, n0)
       \<or> (\<exists>i<length (h @ [e]). (h @ [e]) ! i = (c, n) \<and> n0 < n
             \<and> (\<forall>j<i. snd ((h @ [e]) ! j) < n))"
    proof
      assume "(c, n) = (c0, n0)"
      then show ?thesis by simp
    next
      assume "\<exists>i<length h. h ! i = (c, n) \<and> n0 < n \<and> (\<forall>j<i. snd (h ! j) < n)"
      then obtain i where i: "i < length h" "h ! i = (c, n)" "n0 < n" "\<forall>j<i. snd (h ! j) < n"
        by blast
      then have "i < length (h @ [e]) \<and> (h @ [e]) ! i = (c, n) \<and> n0 < n
                 \<and> (\<forall>j<i. snd ((h @ [e]) ! j) < n)"
        by (simp add: nth_append)
      then show ?thesis by blast
    qed
    with a b show ?thesis by simp
  qed
qed

lemma top_pick_first_max:
  assumes "h \<noteq> []" and "\<forall>e\<in>set h. 0 < snd e"
  shows "\<exists>i c. i < length h \<and> h ! i = (top_pick h, c) \<and> (\<forall>e\<in>set h. snd e \<le> c)
           \<and> (\<forall>j<i. snd (h ! j) < c)"
proof -
  obtain c n where f: "fold top_pick_step h (0, 0) = (c, n)"
    by (cases "fold top_pick_step h (0, 0)")
  then have tp: "top_pick h = c" by (simp add: top_pick_def)
  from assms obtain e where "e \<in> set h" "0 < snd e" by (cases h) auto
  with top_pick_scan[OF f] have "0 < n" by fastforce
  with top_pick_scan[OF f] obtain i where i: "i < length h" "h ! i = (c, n)"
    "\<forall>j<i. snd (h ! j) < n" by auto
  from top_pick_scan[OF f] have m: "\<forall>e\<in>set h. snd e \<le> n" by simp
  from i m tp have "i < length h \<and> h ! i = (top_pick h, n) \<and> (\<forall>e\<in>set h. snd e \<le> n)
           \<and> (\<forall>j<i. snd (h ! j) < n)" by simp
  then show ?thesis by (intro exI)
qed

lemma classify_within_depth:
  "depth node \<le> k \<Longrightarrow> classify_within k r node = Some (classify r node)"
proof (induction node arbitrary: k)
  case (Leaf h)
  then show ?case by simp
next
  case (Decision qo tb fb)
  from Decision.prems obtain k' where k: "k = Suc k'"
    and mt: "(case tb of None \<Rightarrow> 0 | Some n \<Rightarrow> depth n) \<le> k'"
    and mf: "(case fb of None \<Rightarrow> 0 | Some n \<Rightarrow> depth n) \<le> k'"
    by (cases k) auto
  from mt have dt: "\<And>n. tb = Some n \<Longrightarrow> depth n \<le> k'" by simp
  from mf have df: "\<And>n. fb = Some n \<Longrightarrow> depth n \<le> k'" by simp
  show ?case
  proof (cases qo)
    case None
    then show ?thesis by simp
  next
    case (Some q)
    show ?thesis
    proof (cases "match q r")
      case (Inl e)
      with Some show ?thesis by simp
    next
      case (Inr b)
      show ?thesis
      proof (cases b)
        case True
        show ?thesis
        proof (cases tb)
          case None
          with Some Inr True show ?thesis by simp
        next
          case (Some n)
          with Decision.IH(1)[of n k'] dt[OF Some] \<open>qo = Some q\<close> Inr True k
          show ?thesis by simp
        qed
      next
        case False
        show ?thesis
        proof (cases fb)
          case None
          with Some Inr False show ?thesis by simp
        next
          case (Some n)
          with Decision.IH(2)[of n k'] df[OF Some] \<open>qo = Some q\<close> Inr False k
          show ?thesis by simp
        qed
      qed
    qed
  qed
qed

lemma try_split_feature:
  assumes "try_split sc rows cur col v st = Inr st'" and "feature_inv n st" and "col < n"
  shows "feature_inv n st'"
  using assms
  by (auto simp: try_split_def Let_def feature_inv_def split: sum.splits if_splits prod.splits)

lemma try_column_feature:
  assumes "try_column order sc rows cur col st = Inr st'" and "feature_inv n st" and "col < n"
  shows "feature_inv n st'"
proof -
  from assms(1) obtain vs where
    "efold (try_split sc rows cur col) (order vs) st = Inr st'"
    by (auto simp: try_column_def split: sum.splits)
  then show ?thesis
    by (rule efold_invariant) (use assms(2,3) try_split_feature in auto)
qed

lemma find_best_split_feature:
  assumes "find_best_split order sc rows = Inr (gain, Some q)"
  shows "feature q < length (hd rows) - 1"
proof -
  from assms obtain cur r0 rest where rows: "rows = r0 # rest"
    and e: "efold (try_column order sc rows cur) [0 ..< length r0 - 1] (0, None)
            = Inr (gain, Some q)"
    by (auto simp: find_best_split_def split: sum.splits list.splits)
  have "feature_inv (length r0 - 1) (gain, Some q)"
  proof (rule efold_invariant[OF e])
    show "feature_inv (length r0 - 1) (0, None)" by (simp add: feature_inv_def)
  next
    fix col a b
    assume "col \<in> set [0 ..< length r0 - 1]" "feature_inv (length r0 - 1) a"
      "try_column order sc rows cur col a = Inr b"
    then show "feature_inv (length r0 - 1) b" using try_column_feature by auto
  qed
  with rows show ?thesis by (simp add: feature_inv_def)
qed

lemma built_leaf_hist:
  assumes "build order sc rows = Inr (Leaf h)"
  shows "h \<noteq> []" and "\<forall>e\<in>set h. 0 < snd e" and "fst ` set h = last ` set rows"
proof -
  from assms obtain qo where s: "find_best_split order sc rows = Inr (0, qo)"
    and c: "class_counts rows = Inr h"
    by (cases rule: build_cases) auto
  from find_best_split_inv[OF s] have ne: "rows \<noteq> []" by blast
  from class_counts_eq[OF class_counts_Inr[OF c]] c have h: "h = labels_hist rows []" by simp
  show "fst ` set h = last ` set rows" by (simp add: h labels_hist_keys)
  with ne show "h \<noteq> []" by auto
  show "\<forall>e\<in>set h. 0 < snd e" unfolding h by (rule labels_hist_pos) simp
qed

lemma classify_built:
  assumes "build order sc rows = Inr node" and "training_rows w rows" and "w \<le> length sample"
  shows "\<exists>h. Leaf h \<in> subnodes node \<and> classify sample node = Inr (top_pick h)"
  using assms(1,2)
proof (induction "length rows" arbitrary: rows node rule: less_induct)
  case less
  from less.prems(1) show ?case
  proof (cases rule: build_cases)
    case (leaf qo h)
    then show ?thesis by simp
  next
    case (split gain q t f tb fb)
    from accepted_split[OF split(1,2)] split(3) have
      ne: "t \<noteq> []" "f \<noteq> []" and len: "length t + length f = length rows"
      and sub: "set t \<subseteq> set rows" "set f \<subseteq> set rows" by auto
    from ne len have lt: "length t < length rows" "length f < length rows"
      by (cases t; cases f; simp)+
    from less.prems(2) have "length (hd rows) = Suc w"
      by (cases rows) (simp_all add: training_rows_def)
    with find_best_split_feature[OF split(1)] assms(3) have "feature q < length sample" by simp
    then have m: "match q sample = Inr (sample ! feature q \<ge> split_value q)"
      by (simp add: match_def)
    from less.hyps[OF lt(1) split(4) training_rows_sub[OF less.prems(2) sub(1) ne(1)]]
    obtain ht where ht: "Leaf ht \<in> subnodes tb" "classify sample tb = Inr (top_pick ht)" by blast
    from less.hyps[OF lt(2) split(5) training_rows_sub[OF less.prems(2) sub(2) ne(2)]]
    obtain hf where hf: "Leaf hf \<in> subnodes fb" "classify sample fb = Inr (top_pick hf)" by blast
    show ?thesis
    proof (cases "sample ! feature q \<ge> split_value q")
      case True
      with m ht split(6) have "Leaf ht \<in> subnodes node \<and> classify sample node = Inr (top_pick ht)"
        by simp
      then show ?thesis ..
    next
      case False
      with m hf split(6) have "Leaf hf \<in> subnodes node \<and> classify sample node = Inr (top_pick hf)"
        by simp
      then show ?thesis ..
    qed
  qed
qed

text \<open>
  C7. For a tree built from a training matrix with \<open>w\<close> feature columns, every node
  of it and every sample with at least \<open>w\<close> features: \<open>classify\<close> returns a label
  and no exception; the walk ends within \<open>depth\<close> recursive calls; the label is the
  \<open>top_pick\<close> of a leaf below the node, that is, the first entry, in the insertion order
  of the leaf's histogram, whose count is the highest, and so one of the histogram's keys.
\<close>

theorem classify_reaches_leaf:
  assumes "training_rows w rows" and "build order sc rows = Inr built"
    and "node \<in> subnodes built" and "w \<le> length sample"
  shows "\<exists>predictions label i c.
           Leaf predictions \<in> subnodes node
           \<and> classify sample node = Inr label
           \<and> classify_within (depth node) sample node = Some (Inr label)
           \<and> label = top_pick predictions
           \<and> label \<in> fst ` set predictions
           \<and> i < length predictions \<and> predictions ! i = (label, c)
           \<and> (\<forall>e\<in>set predictions. snd e \<le> c)
           \<and> (\<forall>j<i. snd (predictions ! j) < c)"
proof -
  from subnode_built[OF assms(2,3)] obtain prows where
    b: "build order sc prows = Inr node" and sub: "set prows \<subseteq> set rows" and ne: "prows \<noteq> []"
    by blast
  have tr: "training_rows w prows" by (rule training_rows_sub[OF assms(1) sub ne])
  from classify_built[OF b tr assms(4)] obtain h where
    l: "Leaf h \<in> subnodes node" and c: "classify sample node = Inr (top_pick h)" by blast
  from subnode_built[OF b l] obtain lrows where "build order sc lrows = Inr (Leaf h)" by blast
  from built_leaf_hist(1,2)[OF this] have "h \<noteq> []" "\<forall>e\<in>set h. 0 < snd e" .
  from top_pick_first_max[OF this] obtain i n where
    i: "i < length h" "h ! i = (top_pick h, n)" "\<forall>e\<in>set h. snd e \<le> n"
    "\<forall>j<i. snd (h ! j) < n" by blast
  from i(1,2) have "(top_pick h, n) \<in> set h" by (metis nth_mem)
  then have mem: "top_pick h \<in> fst ` set h" by force
  have w: "classify_within (depth node) sample node = Some (Inr (top_pick h))"
    using classify_within_depth[of node "depth node" sample] c by simp
  from l c w mem i have "Leaf h \<in> subnodes node
           \<and> classify sample node = Inr (top_pick h)
           \<and> classify_within (depth node) sample node = Some (Inr (top_pick h))
           \<and> top_pick h = top_pick h
           \<and> top_pick h \<in> fst ` set h
           \<and> i < length h \<and> h ! i = (top_pick h, n)
           \<and> (\<forall>e\<in>set h. snd e \<le> n)
           \<and> (\<forall>j<i. snd (h ! j) < n)" by simp
  then show ?thesis by (intro exI)
qed

theorem classify_reaches_leaf_witness:
  "training_rows 1 [[1, 0], [2, 0], [3, 1], [4, 1]]
   \<and> build remdups 1 [[1, 0], [2, 0], [3, 1], [4, 1]]
       = Inr (Decision (Some \<lparr>feature = 0, split_value = 3\<rparr>)
                (Some (Leaf [(1, 2)])) (Some (Leaf [(0, 2)])))
   \<and> Decision (Some \<lparr>feature = 0, split_value = 3\<rparr>) (Some (Leaf [(1, 2)])) (Some (Leaf [(0, 2)]))
       \<in> subnodes (Decision (Some \<lparr>feature = 0, split_value = 3\<rparr>)
                     (Some (Leaf [(1, 2)])) (Some (Leaf [(0, 2)])))
   \<and> (1::nat) \<le> length [7 / 2 :: rat]
   \<and> classify [7 / 2]
        (Decision (Some \<lparr>feature = 0, split_value = 3\<rparr>)
           (Some (Leaf [(1, 2)])) (Some (Leaf [(0, 2)]))) = Inr 1
   \<and> (\<exists>predictions label i c.
           Leaf predictions
             \<in> subnodes (Decision (Some \<lparr>feature = 0, split_value = 3\<rparr>)
                           (Some (Leaf [(1, 2)])) (Some (Leaf [(0, 2)])))
           \<and> classify [7 / 2]
                (Decision (Some \<lparr>feature = 0, split_value = 3\<rparr>)
                   (Some (Leaf [(1, 2)])) (Some (Leaf [(0, 2)]))) = Inr label
           \<and> classify_within
                (depth (Decision (Some \<lparr>feature = 0, split_value = 3\<rparr>)
                          (Some (Leaf [(1, 2)])) (Some (Leaf [(0, 2)]))))
                [7 / 2]
                (Decision (Some \<lparr>feature = 0, split_value = 3\<rparr>)
                   (Some (Leaf [(1, 2)])) (Some (Leaf [(0, 2)]))) = Some (Inr label)
           \<and> label = top_pick predictions
           \<and> label \<in> fst ` set predictions
           \<and> i < length predictions \<and> predictions ! i = (label, c)
           \<and> (\<forall>e\<in>set predictions. snd e \<le> c)
           \<and> (\<forall>j<i. snd (predictions ! j) < c))"
proof -
  have h1: "training_rows 1 [[1, 0], [2, 0], [3, 1], [4, 1]]" by (simp add: training_rows_def)
  have h2: "build remdups 1 [[1, 0], [2, 0], [3, 1], [4, 1]]
       = Inr (Decision (Some \<lparr>feature = 0, split_value = 3\<rparr>)
                (Some (Leaf [(1, 2)])) (Some (Leaf [(0, 2)])))" by code_simp
  have h3: "Decision (Some \<lparr>feature = 0, split_value = 3\<rparr>) (Some (Leaf [(1, 2)])) (Some (Leaf [(0, 2)]))
       \<in> subnodes (Decision (Some \<lparr>feature = 0, split_value = 3\<rparr>)
                     (Some (Leaf [(1, 2)])) (Some (Leaf [(0, 2)])))" by simp
  have h4: "(1::nat) \<le> length [7 / 2 :: rat]" by simp
  have v: "classify [7 / 2]
        (Decision (Some \<lparr>feature = 0, split_value = 3\<rparr>)
           (Some (Leaf [(1, 2)])) (Some (Leaf [(0, 2)]))) = Inr 1" by code_simp
  note t = classify_reaches_leaf[OF h1 h2 h3 h4]
  from h1 h2 h3 h4 v t show ?thesis by (intro conjI)
qed

section \<open>Fitting a tree\<close>

lemma merge_step_collect:
  "merge_step x y width i acc =
     (case merged_row x y width i of Inl e \<Rightarrow> Inl e | Inr v \<Rightarrow> Inr (acc @ [v]))"
  by (simp add: merge_step_def merged_row_def Let_def)

lemma merged_row_Inr:
  assumes "merged_row x y width i = Inr r"
  shows "length r = width" and "i < length y"
  using assms by (auto simp: merged_row_def Let_def split: if_splits)


lemma merge_train_Inr:
  assumes "merge_train x y = Inr merged"
  shows "x \<noteq> []" and "length merged = length x" and "length x \<le> length y"
    and "training_rows (length (hd x)) merged"
proof -
  from assms obtain x0 rest where x: "x = x0 # rest"
    and e: "efold (merge_step x y (length x0 + 1)) [0 ..< length x] [] = Inr merged"
    by (auto simp: merge_train_def split: list.splits)
  show "x \<noteq> []" by (simp add: x)
  from efold_collect_Inr[where f = "merged_row x y (length x0 + 1)", OF merge_step_collect e]
  have m: "map (merged_row x y (length x0 + 1)) [0 ..< length x] = map Inr merged" by simp
  from collected_nth(1)[OF m] show len: "length merged = length x" by simp
  have each: "merged_row x y (length x0 + 1) i = Inr (merged ! i)" if "i < length x" for i
    using collected_nth(2)[OF m, of i] that by simp
  have "length x - 1 < length y"
    using merged_row_Inr(2)[OF each[of "length x - 1"]] x by simp
  then show "length x \<le> length y" by simp
  have "list_all (\<lambda>r. length r = Suc (length x0)) merged"
    unfolding list_all_length
  proof (intro allI impI)
    fix i assume "i < length merged"
    with len merged_row_Inr(1)[OF each[of i]] show "length (merged ! i) = Suc (length x0)"
      by simp
  qed
  with len x show "training_rows (length (hd x)) merged"
    by (auto simp: training_rows_def)
qed




lemma merge_train_total:
  assumes "x \<noteq> []" and "\<forall>r\<in>set x. length r = length (hd x)" and "length x \<le> length y"
  shows "merge_train x y = Inr (map (\<lambda>i. x ! i @ [y ! i]) [0 ..< length x])"
proof -
  from assms(1) obtain x0 rest where x: "x = x0 # rest" by (cases x) auto
  have each: "merged_row x y (length x0 + 1) i = Inr (x ! i @ [y ! i])" if "i < length x" for i
  proof -
    from that have "x ! i \<in> set x" by simp
    with assms(2) have "length (x ! i) = length (hd x)" by blast
    with x have "length (x ! i) = length x0" by simp
    with that assms(3) show ?thesis by (simp add: merged_row_def)
  qed
  have "map (merged_row x y (length x0 + 1)) [0 ..< length x]
        = map Inr (map (\<lambda>i. x ! i @ [y ! i]) [0 ..< length x])"
    using each by simp
  from efold_collect_total[where f = "merged_row x y (length x0 + 1)", OF merge_step_collect this,
      of "[]"]
  show ?thesis by (simp add: merge_train_def x)
qed

lemma fit_Inr:
  assumes "fit order self x y sc = Inr self'"
  shows "\<exists>merged built. merge_train x y = Inr merged
           \<and> stopping_criteria self' = (if sc \<noteq> 0 then sc else of_nat (length x) / 10)
           \<and> build order (stopping_criteria self') merged = Inr built
           \<and> root_node self' = Some built
           \<and> feature_indices self' = feature_indices self"
proof -
  from assms obtain merged where m: "merge_train x y = Inr merged"
    by (auto simp: fit_def split: sum.splits)
  from merge_train_Inr(2)[OF m] have len: "length merged = length x" .
  from assms m obtain built where
    b: "build order (if sc \<noteq> 0 then sc else of_nat (length merged) / 10) merged = Inr built"
    and s: "self' = self\<lparr>stopping_criteria := (if sc \<noteq> 0 then sc else of_nat (length merged) / 10),
                         root_node := Some built\<rparr>"
    by (auto simp: fit_def Let_def split: sum.splits)
  from m b s len show ?thesis by simp
qed


text \<open>
  C3, as the code has it. When \<open>fit\<close> is called with \<open>stopping_criteria = 0\<close> and
  returns, the tree's floor is the exact quotient of the row count by ten (Python 3's
  \<open>/\<close>, not rounded down); it is positive, and it is at least \<open>1\<close> exactly when there
  are at least ten rows.
\<close>

theorem fit_default_stopping_criteria:
  assumes "fit order self x y 0 = Inr self'"
  shows "stopping_criteria self' = of_nat (length x) / 10
         \<and> 0 < stopping_criteria self'
         \<and> (1 \<le> stopping_criteria self' \<longleftrightarrow> 10 \<le> length x)"
proof -
  from fit_Inr[OF assms] obtain merged where m: "merge_train x y = Inr merged"
    and s: "stopping_criteria self' = of_nat (length x) / 10" by auto
  from merge_train_Inr(1)[OF m] have pos: "0 < length x" by simp
  then have a: "0 < of_nat (length x) / (10::rat)" by simp
  have "(1 \<le> of_nat (length x) / (10::rat)) \<longleftrightarrow> (of_nat 10 :: rat) \<le> of_nat (length x)"
    by (simp add: le_divide_eq)
  also have "\<dots> \<longleftrightarrow> 10 \<le> length x" by (simp only: of_nat_le_iff)
  finally have b: "(1 \<le> of_nat (length x) / (10::rat)) \<longleftrightarrow> 10 \<le> length x" .
  from a b show ?thesis unfolding s by (intro conjI refl)
qed

theorem fit_default_stopping_criteria_witness:
  "fit remdups new_tree [[1], [2], [3], [4]] [0, 0, 1, 1] 0
     = Inr \<lparr>stopping_criteria = 2 / 5,
            root_node = Some (Decision (Some \<lparr>feature = 0, split_value = 3\<rparr>)
                                (Some (Leaf [(1, 2)])) (Some (Leaf [(0, 2)]))),
            feature_indices = None\<rparr>
   \<and> stopping_criteria \<lparr>stopping_criteria = 2 / 5,
            root_node = Some (Decision (Some \<lparr>feature = 0, split_value = 3\<rparr>)
                                (Some (Leaf [(1, 2)])) (Some (Leaf [(0, 2)]))),
            feature_indices = None\<rparr> = of_nat (length [[1], [2], [3], [4::rat]]) / 10"
proof -
  have h: "fit remdups new_tree [[1], [2], [3], [4]] [0, 0, 1, 1] 0
     = Inr \<lparr>stopping_criteria = 2 / 5,
            root_node = Some (Decision (Some \<lparr>feature = 0, split_value = 3\<rparr>)
                                (Some (Leaf [(1, 2)])) (Some (Leaf [(0, 2)]))),
            feature_indices = None\<rparr>" by code_simp
  from fit_default_stopping_criteria[OF h] h show ?thesis by simp
qed

text \<open>
  The claim as it is written fails on the four rows of the specification's own example:
  the default floor is \<open>2/5\<close>, which is neither the integer part of \<open>4/10\<close> nor at
  least \<open>1\<close>.
\<close>

theorem fit_default_counterexample:
  "fit remdups new_tree [[1], [2], [3], [4]] [0, 0, 1, 1] 0
     = Inr \<lparr>stopping_criteria = 2 / 5,
            root_node = Some (Decision (Some \<lparr>feature = 0, split_value = 3\<rparr>)
                                (Some (Leaf [(1, 2)])) (Some (Leaf [(0, 2)]))),
            feature_indices = None\<rparr>
   \<and> (2 / 5 :: rat) \<noteq> of_int \<lfloor>4 / 10 :: rat\<rfloor>
   \<and> \<not> (1 :: rat) \<le> 2 / 5"
proof (intro conjI)
  show "fit remdups new_tree [[1], [2], [3], [4]] [0, 0, 1, 1] 0
     = Inr \<lparr>stopping_criteria = 2 / 5,
            root_node = Some (Decision (Some \<lparr>feature = 0, split_value = 3\<rparr>)
                                (Some (Leaf [(1, 2)])) (Some (Leaf [(0, 2)]))),
            feature_indices = None\<rparr>" by code_simp
  have f: "\<lfloor>4 / 10 :: rat\<rfloor> = 0" by (rule floor_unique) simp_all
  show "(2 / 5 :: rat) \<noteq> of_int \<lfloor>4 / 10 :: rat\<rfloor>" unfolding f by simp
  show "\<not> (1 :: rat) \<le> 2 / 5" by simp
qed

section \<open>Failures of fit and unfitted models\<close>

lemma efold_first_error:
  assumes "\<And>a. body x a = Inl e"
  shows "efold body (x # xs) s = Inl e"
  by (simp add: assms)






section \<open>The vote of the forest\<close>

lemma vote_scan:
  assumes "fold (vote_step votes) [0 ..< m] (0, 0) = (n, i)"
  shows "(\<forall>j<m. snd (votes ! j) \<le> n)
         \<and> ((n, i) = (0, 0)
             \<or> (i < m \<and> snd (votes ! i) = n \<and> 0 < n \<and> (\<forall>j<i. snd (votes ! j) < n)))"
  using assms
proof (induction m arbitrary: n i)
  case 0
  then show ?case by simp
next
  case (Suc m)
  obtain n' i' where f: "fold (vote_step votes) [0 ..< m] (0, 0) = (n', i')"
    by (cases "fold (vote_step votes) [0 ..< m] (0, 0)")
  note ih = Suc.IH[OF f]
  from Suc.prems have "vote_step votes m (fold (vote_step votes) [0 ..< m] (0, 0)) = (n, i)"
    by simp
  then have st: "vote_step votes m (n', i') = (n, i)" by (simp only: f)
  show ?case
  proof (cases "snd (votes ! m) > n'")
    case True
    with st have e: "n = snd (votes ! m)" "i = m" by (auto simp: vote_step_def)
    have a: "\<forall>j<Suc m. snd (votes ! j) \<le> n"
    proof (intro allI impI)
      fix j assume "j < Suc m"
      then consider "j = m" | "j < m" by linarith
      then show "snd (votes ! j) \<le> n"
      proof cases
        case 1
        with e show ?thesis by simp
      next
        case 2
        with ih have "snd (votes ! j) \<le> n'" by blast
        with True e show ?thesis by simp
      qed
    qed
    have b: "\<forall>j<i. snd (votes ! j) < n"
    proof (intro allI impI)
      fix j assume "j < i"
      with e ih have "snd (votes ! j) \<le> n'" by blast
      with True e show "snd (votes ! j) < n" by simp
    qed
    from True e have "0 < n" by simp
    with a b e show ?thesis by simp
  next
    case False
    with st have e: "n = n'" "i = i'" by (simp_all add: vote_step_def)
    have a: "\<forall>j<Suc m. snd (votes ! j) \<le> n"
    proof (intro allI impI)
      fix j assume "j < Suc m"
      then consider "j = m" | "j < m" by linarith
      then show "snd (votes ! j) \<le> n"
      proof cases
        case 1
        with False e show ?thesis by simp
      next
        case 2
        with ih e show ?thesis by blast
      qed
    qed
    from ih e have "(n, i) = (0, 0)
       \<or> (i < m \<and> snd (votes ! i) = n \<and> 0 < n \<and> (\<forall>j<i. snd (votes ! j) < n))" by simp
    then have "(n, i) = (0, 0)
       \<or> (i < Suc m \<and> snd (votes ! i) = n \<and> 0 < n \<and> (\<forall>j<i. snd (votes ! j) < n))" by auto
    with a show ?thesis by simp
  qed
qed

lemma unique_counts_sorted:
  "unique_counts a = map (\<lambda>v. (v, count_list a v)) (sorted_list_of_set (set a))"
  by (simp add: unique_counts_def sorted_list_of_set_sort_remdups)

lemma unique_counts_nth:
  assumes "j < length (sort (remdups a))"
  shows "unique_counts a ! j = (sort (remdups a) ! j, count_list a (sort (remdups a) ! j))"
  using assms by (simp add: unique_counts_def)

lemma count_list_pos: "v \<in> set a \<Longrightarrow> 0 < count_list a v"
  using count_list_0_iff[of a v] by auto

lemma vote_result:
  assumes "a \<noteq> []"
  shows "\<exists>l. vote a = Inr l \<and> l \<in> set a
           \<and> (\<forall>v. count_list a v \<le> count_list a l)
           \<and> (\<forall>v\<in>set a. count_list a v = count_list a l \<longrightarrow> l \<le> v)"
proof -
  let ?vs = "sort (remdups a)"
  let ?votes = "unique_counts a"
  have len: "length ?votes = length ?vs" by (simp add: unique_counts_def)
  have sv: "set ?vs = set a" by simp
  have srt: "sorted ?vs" by simp
  from assms have ne: "?vs \<noteq> []" by (metis sv set_empty)
  obtain n i where f: "fold (vote_step ?votes) [0 ..< length ?votes] (0, 0) = (n, i)"
    by (cases "fold (vote_step ?votes) [0 ..< length ?votes] (0, 0)")
  note sc = vote_scan[OF f]
  have cnt: "snd (?votes ! j) = count_list a (?vs ! j)" if "j < length ?vs" for j
    using unique_counts_nth[OF that] by simp
  from assms have z: "0 < length ?vs" by simp
  have "?vs ! 0 \<in> set a" using z sv nth_mem by blast
  then have "0 < snd (?votes ! 0)" using cnt[OF z] by (simp add: count_list_pos)
  moreover from sc z len have "snd (?votes ! 0) \<le> n" by simp
  ultimately have "0 < n" by simp
  with sc have i: "i < length ?votes" "snd (?votes ! i) = n" "\<forall>j<i. snd (?votes ! j) < n"
    by auto
  let ?l = "?vs ! i"
  have il: "i < length ?vs" using i(1) len by simp
  have nl: "count_list a ?l = n" using cnt[OF il] i(2) by simp
  have mem: "?l \<in> set a" using il sv nth_mem by blast
  have mx: "count_list a v \<le> count_list a ?l" for v
  proof (cases "v \<in> set a")
    case True
    with sv obtain j where j: "j < length ?vs" "?vs ! j = v" by (metis in_set_conv_nth)
    with sc len cnt[OF j(1)] nl show ?thesis by auto
  next
    case False
    then show ?thesis by (simp add: count_list_0_iff)
  qed
  have tie: "?l \<le> v" if "v \<in> set a" "count_list a v = count_list a ?l" for v
  proof -
    from that(1) sv obtain j where j: "j < length ?vs" "?vs ! j = v" by (metis in_set_conv_nth)
    have "\<not> j < i"
    proof
      assume "j < i"
      with i(3) have "snd (?votes ! j) < n" by blast
      with cnt[OF j(1)] j(2) that(2) nl show False by simp
    qed
    then have "i \<le> j" by simp
    from sorted_nth_mono[OF srt this j(1)] j(2) show ?thesis by simp
  qed
  have v: "vote a = Inr ?l"
  proof (cases "length ?votes = 1")
    case True
    with i(1) have "i = 0" by simp
    with True il show ?thesis by (simp add: vote_def Let_def unique_counts_nth)
  next
    case False
    with f i(1) il show ?thesis by (simp add: vote_def Let_def unique_counts_nth)
  qed
  from v mem mx tie show ?thesis by blast
qed

lemma vote_examples: "vote [0, 1, 1] = Inr 1" "vote [0, 1] = Inr 0"
  by code_simp+

lemma efold_checked:
  assumes "\<And>x acc. step x acc = (if ok x then Inr (acc @ [g x]) else Inl e)"
  shows "efold step xs [] = Inr res \<longleftrightarrow> (\<forall>x\<in>set xs. ok x) \<and> res = map g xs"
proof -
  let ?f = "\<lambda>x. if ok x then Inr (g x) else Inl e"
  have st: "\<And>x acc. step x acc = (case ?f x of Inl e \<Rightarrow> Inl e | Inr v \<Rightarrow> Inr (acc @ [v]))"
    by (simp add: assms)
  show ?thesis
  proof
    assume "efold step xs [] = Inr res"
    from efold_collect_Inr[where f = ?f, OF st this] have m: "map ?f xs = map Inr res" by simp
    note n = collected_nth[OF m]
    have ok: "\<forall>x\<in>set xs. ok x"
    proof
      fix x assume "x \<in> set xs"
      then obtain i where i: "i < length xs" "xs ! i = x" by (metis in_set_conv_nth)
      from n(2)[OF i(1)] i(2) show "ok x" by (auto split: if_splits)
    qed
    have "res = map g xs"
    proof (rule nth_equalityI)
      show "length res = length (map g xs)" using n(1) by simp
    next
      fix i assume "i < length res"
      with n(1) have i: "i < length xs" by simp
      from n(2)[OF i] ok i show "res ! i = map g xs ! i" by (auto split: if_splits)
    qed
    with ok show "(\<forall>x\<in>set xs. ok x) \<and> res = map g xs" by simp
  next
    assume a: "(\<forall>x\<in>set xs. ok x) \<and> res = map g xs"
    then have "map ?f xs = map Inr (map g xs)" by simp
    from efold_collect_total[where f = ?f, OF st this, of "[]"] a
    show "efold step xs [] = Inr res" by simp
  qed
qed

lemma select_row:
  "efold (select_step r) idx [] = Inr r' \<longleftrightarrow> (\<forall>j\<in>set idx. j < length r) \<and> r' = map (\<lambda>j. r ! j) idx"
  by (rule efold_checked) (simp add: select_step_def)

lemma tree_column_step_collect:
  "tree_column_step x t cols =
     (case tree_column x t of Inl e \<Rightarrow> Inl e | Inr v \<Rightarrow> Inr (cols @ [v]))"
  by (simp add: tree_column_step_def tree_column_def split: option.splits sum.splits)

lemma select_columns_step_collect:
  "select_columns_step idx r acc =
     (case efold (select_step r) idx [] of Inl e \<Rightarrow> Inl e | Inr v \<Rightarrow> Inr (acc @ [v]))"
  by (simp add: select_columns_step_def)

lemma rf_predict_step_collect:
  "rf_predict_step self r acc =
     (case classify_root r (root_node self) of Inl e \<Rightarrow> Inl e | Inr v \<Rightarrow> Inr (acc @ [v]))"
  by (simp add: rf_predict_step_def)

lemma top_voted_step_collect:
  "top_voted_step cols i acc =
     (case vote (map (\<lambda>c. c ! i) cols) of Inl e \<Rightarrow> Inl e | Inr v \<Rightarrow> Inr (acc @ [v]))"
  by (simp add: top_voted_step_def)

lemma random_forest_predict_Inr:
  assumes "random_forest_predict t x = Inr col"
  shows "length col = length x"
    and "\<And>i. i < length x \<Longrightarrow> classify_root (x ! i) (root_node t) = Inr (col ! i)"
proof -
  from efold_collect_Inr[where f = "\<lambda>r. classify_root r (root_node t)",
      OF rf_predict_step_collect assms[unfolded random_forest_predict_def]]
  have m: "map (\<lambda>r. classify_root r (root_node t)) x = map Inr col" by simp
  from collected_nth(1)[OF m] show "length col = length x" .
  fix i assume "i < length x"
  from collected_nth(2)[OF m this] show "classify_root (x ! i) (root_node t) = Inr (col ! i)" .
qed

lemma select_columns_Inr:
  assumes "select_columns x idx = Inr x'"
  shows "length x' = length x"
    and "\<And>i. i < length x \<Longrightarrow> x' ! i = map (\<lambda>j. x ! i ! j) idx \<and> (\<forall>j\<in>set idx. j < length (x ! i))"
proof -
  from efold_collect_Inr[where f = "\<lambda>r. efold (select_step r) idx []",
      OF select_columns_step_collect assms[unfolded select_columns_def]]
  have m: "map (\<lambda>r. efold (select_step r) idx []) x = map Inr x'" by simp
  from collected_nth(1)[OF m] show "length x' = length x" .
  fix i assume "i < length x"
  from collected_nth(2)[OF m this]
  show "x' ! i = map (\<lambda>j. x ! i ! j) idx \<and> (\<forall>j\<in>set idx. j < length (x ! i))"
    by (simp add: select_row)
qed

lemma tree_column_Inr:
  assumes "tree_column x t = Inr col"
  shows "length col = length x"
    and "\<And>i. i < length x \<Longrightarrow>
           \<exists>idx. feature_indices t = Some idx \<and> (\<forall>j\<in>set idx. j < length (x ! i))
                 \<and> classify_root (map (\<lambda>j. x ! i ! j) idx) (root_node t) = Inr (col ! i)"
proof -
  from assms obtain idx x' where idx: "feature_indices t = Some idx"
    and sel: "select_columns x idx = Inr x'" and p: "random_forest_predict t x' = Inr col"
    by (auto simp: tree_column_def split: option.splits sum.splits)
  from random_forest_predict_Inr(1)[OF p] select_columns_Inr(1)[OF sel]
  show "length col = length x" by simp
  fix i assume i: "i < length x"
  with select_columns_Inr(1)[OF sel] have i': "i < length x'" by simp
  from random_forest_predict_Inr(2)[OF p i'] select_columns_Inr(2)[OF sel i] idx
  show "\<exists>idx. feature_indices t = Some idx \<and> (\<forall>j\<in>set idx. j < length (x ! i))
                 \<and> classify_root (map (\<lambda>j. x ! i ! j) idx) (root_node t) = Inr (col ! i)"
    by simp
qed

lemma forest_predict_Inr:
  assumes "forest_predict self x = Inr out"
  shows "\<exists>cols. length cols = length (the_forest self)
           \<and> (\<forall>k<length (the_forest self). tree_column x (the_forest self ! k) = Inr (cols ! k))
           \<and> length out = length x
           \<and> (\<forall>i<length x. vote (map (\<lambda>c. c ! i) cols) = Inr (out ! i))"
proof -
  from assms obtain cols where c: "efold (tree_column_step x) (the_forest self) [] = Inr cols"
    and v: "efold (top_voted_step cols) [0 ..< length x] [] = Inr out"
    by (auto simp: forest_predict_def split: sum.splits)
  from efold_collect_Inr[where f = "tree_column x", OF tree_column_step_collect c]
  have mc: "map (tree_column x) (the_forest self) = map Inr cols" by simp
  from efold_collect_Inr[where f = "\<lambda>i. vote (map (\<lambda>c. c ! i) cols)", OF top_voted_step_collect v]
  have mv: "map (\<lambda>i. vote (map (\<lambda>c. c ! i) cols)) [0 ..< length x] = map Inr out" by simp
  have "\<forall>i<length x. vote (map (\<lambda>c. c ! i) cols) = Inr (out ! i)"
    using collected_nth(2)[OF mv] by simp
  with collected_nth[OF mc] collected_nth(1)[OF mv] show ?thesis by auto
qed

text \<open>
  C2. When \<open>RandomForest.predict\<close> returns, then for every row of the matrix: each tree
  has classified the row restricted to the tree's feature indices; the distinct labels
  with their counts are taken in ascending order; and the row's result is the vote over
  the trees' labels, which is one of these labels, has the highest count, and is the
  smallest of the labels that have this count. The votes \<open>[0, 1, 1]\<close> give \<open>1\<close>, and
  the tie \<open>[0, 1]\<close> gives \<open>0\<close>.
\<close>

theorem forest_predict_majority:
  assumes "forest_predict self x = Inr top_voted" and "i < length x"
  shows "\<exists>preds. length preds = length (the_forest self)
           \<and> (\<forall>k<length (the_forest self). \<exists>idx.
                 feature_indices (the_forest self ! k) = Some idx
                 \<and> classify_root (map (\<lambda>j. x ! i ! j) idx) (root_node (the_forest self ! k))
                     = Inr (preds ! k))
           \<and> unique_counts preds
               = map (\<lambda>v. (v, count_list preds v)) (sorted_list_of_set (set preds))
           \<and> vote preds = Inr (top_voted ! i)
           \<and> top_voted ! i \<in> set preds
           \<and> (\<forall>v. count_list preds v \<le> count_list preds (top_voted ! i))
           \<and> (\<forall>v\<in>set preds. count_list preds v = count_list preds (top_voted ! i)
                  \<longrightarrow> top_voted ! i \<le> v)
           \<and> vote [0, 1, 1] = Inr 1 \<and> vote [0, 1] = Inr 0"
proof -
  from forest_predict_Inr[OF assms(1)] assms(2) obtain cols where
    len: "length cols = length (the_forest self)"
    and col: "\<forall>k<length (the_forest self). tree_column x (the_forest self ! k) = Inr (cols ! k)"
    and v: "vote (map (\<lambda>c. c ! i) cols) = Inr (top_voted ! i)" by blast
  define preds where "preds = map (\<lambda>c. c ! i) cols"
  have a: "length preds = length (the_forest self)" using len by (simp add: preds_def)
  have b: "\<forall>k<length (the_forest self). \<exists>idx.
                 feature_indices (the_forest self ! k) = Some idx
                 \<and> classify_root (map (\<lambda>j. x ! i ! j) idx) (root_node (the_forest self ! k))
                     = Inr (preds ! k)"
  proof (intro allI impI)
    fix k assume k: "k < length (the_forest self)"
    with col have tc: "tree_column x (the_forest self ! k) = Inr (cols ! k)" by blast
    from tree_column_Inr(2)[OF tc assms(2)] k len
    show "\<exists>idx. feature_indices (the_forest self ! k) = Some idx
                 \<and> classify_root (map (\<lambda>j. x ! i ! j) idx) (root_node (the_forest self ! k))
                     = Inr (preds ! k)" by (auto simp: preds_def)
  qed
  from v have v': "vote preds = Inr (top_voted ! i)" by (simp add: preds_def)
  have ne: "preds \<noteq> []"
  proof
    assume "preds = []"
    with v' show False by (simp add: vote_def unique_counts_def)
  qed
  from vote_result[OF ne] v' have c: "top_voted ! i \<in> set preds"
    "\<forall>v. count_list preds v \<le> count_list preds (top_voted ! i)"
    "\<forall>v\<in>set preds. count_list preds v = count_list preds (top_voted ! i)
         \<longrightarrow> top_voted ! i \<le> v" by auto
  note u = unique_counts_sorted[of preds]
  show ?thesis
  proof (intro exI[of _ preds] conjI)
    show "length preds = length (the_forest self)" by (rule a)
    show "\<forall>k<length (the_forest self). \<exists>idx.
                 feature_indices (the_forest self ! k) = Some idx
                 \<and> classify_root (map (\<lambda>j. x ! i ! j) idx) (root_node (the_forest self ! k))
                     = Inr (preds ! k)" by (rule b)
    show "unique_counts preds
               = map (\<lambda>v. (v, count_list preds v)) (sorted_list_of_set (set preds))" by (rule u)
    show "vote preds = Inr (top_voted ! i)" by (rule v')
    show "top_voted ! i \<in> set preds" by (rule c(1))
    show "\<forall>v. count_list preds v \<le> count_list preds (top_voted ! i)" by (rule c(2))
    show "\<forall>v\<in>set preds. count_list preds v = count_list preds (top_voted ! i)
                  \<longrightarrow> top_voted ! i \<le> v" by (rule c(3))
    show "vote [0, 1, 1] = Inr 1" by (rule vote_examples(1))
    show "vote [0, 1] = Inr 0" by (rule vote_examples(2))
  qed
qed

theorem forest_predict_majority_witness:
  "forest_predict
        \<lparr>n_trees = 3, max_features = Some 1, forest_stopping_criteria = 1, the_forest =
        [\<lparr>stopping_criteria = 1, root_node = Some (Leaf [(0, 1)]), feature_indices = Some [0]\<rparr>,
         \<lparr>stopping_criteria = 1, root_node = Some (Leaf [(1, 1)]), feature_indices = Some [0]\<rparr>,
         \<lparr>stopping_criteria = 1, root_node = Some (Leaf [(1, 1)]), feature_indices = Some [0]\<rparr>]\<rparr>
        [[7]] = Inr [1]
   \<and> (0::nat) < length [[7 :: rat]]
   \<and> (\<exists>preds. length preds = length (the_forest 
        \<lparr>n_trees = 3, max_features = Some 1, forest_stopping_criteria = 1, the_forest =
        [\<lparr>stopping_criteria = 1, root_node = Some (Leaf [(0, 1)]), feature_indices = Some [0]\<rparr>,
         \<lparr>stopping_criteria = 1, root_node = Some (Leaf [(1, 1)]), feature_indices = Some [0]\<rparr>,
         \<lparr>stopping_criteria = 1, root_node = Some (Leaf [(1, 1)]), feature_indices = Some [0]\<rparr>]\<rparr>)
           \<and> (\<forall>k<length (the_forest 
        \<lparr>n_trees = 3, max_features = Some 1, forest_stopping_criteria = 1, the_forest =
        [\<lparr>stopping_criteria = 1, root_node = Some (Leaf [(0, 1)]), feature_indices = Some [0]\<rparr>,
         \<lparr>stopping_criteria = 1, root_node = Some (Leaf [(1, 1)]), feature_indices = Some [0]\<rparr>,
         \<lparr>stopping_criteria = 1, root_node = Some (Leaf [(1, 1)]), feature_indices = Some [0]\<rparr>]\<rparr>). \<exists>idx.
                 feature_indices (the_forest 
        \<lparr>n_trees = 3, max_features = Some 1, forest_stopping_criteria = 1, the_forest =
        [\<lparr>stopping_criteria = 1, root_node = Some (Leaf [(0, 1)]), feature_indices = Some [0]\<rparr>,
         \<lparr>stopping_criteria = 1, root_node = Some (Leaf [(1, 1)]), feature_indices = Some [0]\<rparr>,
         \<lparr>stopping_criteria = 1, root_node = Some (Leaf [(1, 1)]), feature_indices = Some [0]\<rparr>]\<rparr> ! k) = Some idx
                 \<and> classify_root (map (\<lambda>j. [[7 :: rat]] ! 0 ! j) idx) (root_node (the_forest 
        \<lparr>n_trees = 3, max_features = Some 1, forest_stopping_criteria = 1, the_forest =
        [\<lparr>stopping_criteria = 1, root_node = Some (Leaf [(0, 1)]), feature_indices = Some [0]\<rparr>,
         \<lparr>stopping_criteria = 1, root_node = Some (Leaf [(1, 1)]), feature_indices = Some [0]\<rparr>,
         \<lparr>stopping_criteria = 1, root_node = Some (Leaf [(1, 1)]), feature_indices = Some [0]\<rparr>]\<rparr> ! k))
                     = Inr (preds ! k))
           \<and> unique_counts preds
               = map (\<lambda>v. (v, count_list preds v)) (sorted_list_of_set (set preds))
           \<and> vote preds = Inr ([1] ! 0)
           \<and> [1] ! 0 \<in> set preds
           \<and> (\<forall>v. count_list preds v \<le> count_list preds ([1] ! 0))
           \<and> (\<forall>v\<in>set preds. count_list preds v = count_list preds ([1] ! 0)
                  \<longrightarrow> [1] ! 0 \<le> v)
           \<and> vote [0, 1, 1] = Inr 1 \<and> vote [0, 1] = Inr 0)"
proof -
  have h1: "forest_predict
        \<lparr>n_trees = 3, max_features = Some 1, forest_stopping_criteria = 1, the_forest =
        [\<lparr>stopping_criteria = 1, root_node = Some (Leaf [(0, 1)]), feature_indices = Some [0]\<rparr>,
         \<lparr>stopping_criteria = 1, root_node = Some (Leaf [(1, 1)]), feature_indices = Some [0]\<rparr>,
         \<lparr>stopping_criteria = 1, root_node = Some (Leaf [(1, 1)]), feature_indices = Some [0]\<rparr>]\<rparr>
        [[7]] = Inr [1]" by code_simp
  have h2: "(0::nat) < length [[7 :: rat]]" by simp
  note t = forest_predict_majority[OF h1 h2]
  show ?thesis by (intro conjI) (rule h1 h2 t)+
qed

section \<open>Results of predict\<close>

lemma fitted_tree_classify:
  assumes "fitted_tree w t" and "w \<le> length r"
  shows "\<exists>l. classify_root r (root_node t) = Inr l"
proof -
  from assms(1) obtain order self x y sc where f: "fit order self x y sc = Inr t"
    and w: "length (hd x) = w" by (auto simp: fitted_tree_def)
  from fit_Inr[OF f] obtain merged built where m: "merge_train x y = Inr merged"
    and b: "build order (stopping_criteria t) merged = Inr built"
    and r: "root_node t = Some built" by blast
  from merge_train_Inr(4)[OF m] w have tr: "training_rows w merged" by simp
  from classify_built[OF b tr assms(2)] r show ?thesis
    by (auto simp: classify_root_def)
qed

lemma random_forest_predict_total:
  assumes "fitted_tree w t" and "\<forall>r\<in>set x. w \<le> length r"
  shows "\<exists>labels. random_forest_predict t x = Inr labels \<and> length labels = length x"
proof -
  have "\<forall>r\<in>set x. \<exists>l. classify_root r (root_node t) = Inr l"
    using fitted_tree_classify[OF assms(1)] assms(2) by blast
  then have "\<exists>ls. map (\<lambda>r. classify_root r (root_node t)) x = map Inr ls"
  proof (induction x)
    case Nil
    then show ?case by simp
  next
    case (Cons r x)
    then obtain l ls where "classify_root r (root_node t) = Inr l"
      "map (\<lambda>r. classify_root r (root_node t)) x = map Inr ls" by auto
    then have "map (\<lambda>r. classify_root r (root_node t)) (r # x) = map Inr (l # ls)" by simp
    then show ?case by blast
  qed
  then obtain ls where m: "map (\<lambda>r. classify_root r (root_node t)) x = map Inr ls" ..
  from efold_collect_total[where f = "\<lambda>r. classify_root r (root_node t)",
      OF rf_predict_step_collect m, of "[]"]
  have "random_forest_predict t x = Inr ls" by (simp add: random_forest_predict_def)
  with collected_nth(1)[OF m] show ?thesis by simp
qed

lemma select_columns_total:
  assumes "\<forall>r\<in>set x. \<forall>j\<in>set idx. j < length r"
  shows "select_columns x idx = Inr (map (\<lambda>r. map (\<lambda>j. r ! j) idx) x)"
proof -
  have "map (\<lambda>r. efold (select_step r) idx []) x = map Inr (map (\<lambda>r. map (\<lambda>j. r ! j) idx) x)"
    using assms by (simp add: select_row)
  from efold_collect_total[where f = "\<lambda>r. efold (select_step r) idx []",
      OF select_columns_step_collect this, of "[]"]
  show ?thesis by (simp add: select_columns_def)
qed

lemma tree_column_total:
  assumes "feature_indices t = Some idx" and "\<forall>j\<in>set idx. j < F"
    and "fitted_tree (length idx) t" and "\<forall>r\<in>set x. length r = F"
  shows "\<exists>col. tree_column x t = Inr col \<and> length col = length x"
proof -
  have "select_columns x idx = Inr (map (\<lambda>r. map (\<lambda>j. r ! j) idx) x)"
    by (rule select_columns_total) (use assms(2,4) in auto)
  moreover have "\<exists>labels. random_forest_predict t (map (\<lambda>r. map (\<lambda>j. r ! j) idx) x) = Inr labels
      \<and> length labels = length (map (\<lambda>r. map (\<lambda>j. r ! j) idx) x)"
    by (rule random_forest_predict_total[OF assms(3)]) simp
  ultimately show ?thesis using assms(1) by (auto simp: tree_column_def)
qed

lemma collect_all:
  assumes "\<forall>x\<in>set xs. \<exists>v. f x = Inr v \<and> P v"
  shows "\<exists>vs. map f xs = map Inr vs \<and> (\<forall>v\<in>set vs. P v)"
  using assms
proof (induction xs)
  case Nil
  then show ?case by simp
next
  case (Cons x xs)
  then obtain v vs where "f x = Inr v" "P v" "map f xs = map Inr vs" "\<forall>v\<in>set vs. P v" by auto
  then have "map f (x # xs) = map Inr (v # vs) \<and> (\<forall>u\<in>set (v # vs). P u)" by simp
  then show ?case by blast
qed

lemma forest_predict_total:
  assumes "fitted_forest F (the_forest self)" and "the_forest self \<noteq> []"
    and "\<forall>r\<in>set x. length r = F"
  shows "\<exists>labels. forest_predict self x = Inr labels \<and> length labels = length x"
proof -
  have "\<forall>t\<in>set (the_forest self). \<exists>col. tree_column x t = Inr col \<and> length col = length x"
  proof
    fix t assume "t \<in> set (the_forest self)"
    with assms(1) obtain idx where "feature_indices t = Some idx" "\<forall>j\<in>set idx. j < F"
      "fitted_tree (length idx) t" by (auto simp: fitted_forest_def)
    from tree_column_total[OF this assms(3)]
    show "\<exists>col. tree_column x t = Inr col \<and> length col = length x" .
  qed
  from collect_all[OF this] obtain cols where mc: "map (tree_column x) (the_forest self) = map Inr cols"
    and lc: "\<forall>c\<in>set cols. length c = length x" by blast
  from efold_collect_total[where f = "tree_column x", OF tree_column_step_collect mc, of "[]"]
  have c: "efold (tree_column_step x) (the_forest self) [] = Inr cols" by simp
  from collected_nth(1)[OF mc] assms(2) have cne: "cols \<noteq> []" by auto
  have "\<forall>i\<in>set [0 ..< length x]. \<exists>v. vote (map (\<lambda>c. c ! i) cols) = Inr v \<and> True"
  proof
    fix i assume "i \<in> set [0 ..< length x]"
    from cne have "map (\<lambda>c. c ! i) cols \<noteq> []" by simp
    from vote_result[OF this] show "\<exists>v. vote (map (\<lambda>c. c ! i) cols) = Inr v \<and> True" by blast
  qed
  from collect_all[OF this] obtain out where
    mv: "map (\<lambda>i. vote (map (\<lambda>c. c ! i) cols)) [0 ..< length x] = map Inr out" by blast
  from efold_collect_total[where f = "\<lambda>i. vote (map (\<lambda>c. c ! i) cols)",
      OF top_voted_step_collect mv, of "[]"]
  have "efold (top_voted_step cols) [0 ..< length x] [] = Inr out" by simp
  with c have "forest_predict self x = Inr out" by (simp add: forest_predict_def)
  with collected_nth(1)[OF mv] show ?thesis by simp
qed

lemma count_total:
  assumes "fitted_tree w t" and "\<forall>r\<in>set x. w \<le> length r" and "length x \<le> length y"
  shows "\<exists>c. efold (count_step t x y) [0 ..< length x] 0 = Inr c"
proof (rule efold_total)
  fix i a assume "i \<in> set [0 ..< length x]"
  then have i: "i < length x" by simp
  then have "x ! i \<in> set x" by simp
  with assms(2) have "w \<le> length (x ! i)" by blast
  from fitted_tree_classify[OF assms(1) this] obtain l where
    "classify_root (x ! i) (root_node t) = Inr l" ..
  with i assms(3) show "\<exists>b. count_step t x y i a = Inr b" by (simp add: count_step_def)
qed

text \<open>
  C8, as the code has it. \<open>RandomForest.predict\<close> on a fitted forest with at least one
  tree, and \<open>Tree.random_forest_predict\<close> on a fitted tree, return one label per row
  of the matrix. \<open>Tree.predict\<close> takes the labels as a second argument; on a fitted
  tree, a non-empty matrix and enough labels it returns normally, and the value it
  returns is always \<open>None\<close>: the accuracy is printed, no labels are returned.
\<close>

theorem predict_results:
  "(fitted_forest F (the_forest fself) \<and> the_forest fself \<noteq> [] \<and> (\<forall>r\<in>set x. length r = F) \<longrightarrow>
      (\<exists>labels. forest_predict fself x = Inr labels \<and> length labels = length x))
   \<and> (fitted_tree F self \<and> (\<forall>r\<in>set x. length r = F) \<longrightarrow>
      (\<exists>labels. random_forest_predict self x = Inr labels \<and> length labels = length x))
   \<and> (fitted_tree F self \<and> (\<forall>r\<in>set x. length r = F) \<and> x \<noteq> [] \<and> length x \<le> length y \<longrightarrow>
      (\<exists>printed. predict self x y = Inr (printed, None)))
   \<and> (predict self x y = Inr (printed', returned) \<longrightarrow> returned = None)"
proof (intro conjI impI)
  assume "fitted_forest F (the_forest fself) \<and> the_forest fself \<noteq> [] \<and> (\<forall>r\<in>set x. length r = F)"
  then show "\<exists>labels. forest_predict fself x = Inr labels \<and> length labels = length x"
    using forest_predict_total by blast
next
  assume "fitted_tree F self \<and> (\<forall>r\<in>set x. length r = F)"
  then have "fitted_tree F self" "\<forall>r\<in>set x. F \<le> length r" by simp_all
  then show "\<exists>labels. random_forest_predict self x = Inr labels \<and> length labels = length x"
    by (rule random_forest_predict_total)
next
  assume a: "fitted_tree F self \<and> (\<forall>r\<in>set x. length r = F) \<and> x \<noteq> [] \<and> length x \<le> length y"
  then have "fitted_tree F self" "\<forall>r\<in>set x. F \<le> length r" "length x \<le> length y" by simp_all
  from count_total[OF this] obtain c where
    "efold (count_step self x y) [0 ..< length x] 0 = Inr c" ..
  with a show "\<exists>printed. predict self x y = Inr (printed, None)" by (simp add: predict_def)
next
  assume "predict self x y = Inr (printed', returned)"
  then show "returned = None"
    by (auto simp: predict_def split: sum.splits if_splits)
qed

theorem predict_results_witness:
  "fitted_forest 1 (the_forest
      \<lparr>n_trees = 2, max_features = Some 1, forest_stopping_criteria = 1, the_forest =
      [\<lparr>stopping_criteria = 1,
          root_node = Some (Decision (Some \<lparr>feature = 0, split_value = 3\<rparr>)
                              (Some (Leaf [(1, 2)])) (Some (Leaf [(0, 2)]))),
          feature_indices = Some [0]\<rparr>,
       \<lparr>stopping_criteria = 1,
          root_node = Some (Decision (Some \<lparr>feature = 0, split_value = 3\<rparr>)
                              (Some (Leaf [(1, 2)])) (Some (Leaf [(0, 2)]))),
          feature_indices = Some [0]\<rparr>]\<rparr>)
   \<and> list_all (\<lambda>r. length r = 1) [[1], [4 :: rat]]
   \<and> forest_predict
      \<lparr>n_trees = 2, max_features = Some 1, forest_stopping_criteria = 1, the_forest =
      [\<lparr>stopping_criteria = 1,
          root_node = Some (Decision (Some \<lparr>feature = 0, split_value = 3\<rparr>)
                              (Some (Leaf [(1, 2)])) (Some (Leaf [(0, 2)]))),
          feature_indices = Some [0]\<rparr>,
       \<lparr>stopping_criteria = 1,
          root_node = Some (Decision (Some \<lparr>feature = 0, split_value = 3\<rparr>)
                              (Some (Leaf [(1, 2)])) (Some (Leaf [(0, 2)]))),
          feature_indices = Some [0]\<rparr>]\<rparr>
      [[1], [4]] = Inr [0, 1]
   \<and> (\<exists>labels. forest_predict
      \<lparr>n_trees = 2, max_features = Some 1, forest_stopping_criteria = 1, the_forest =
      [\<lparr>stopping_criteria = 1,
          root_node = Some (Decision (Some \<lparr>feature = 0, split_value = 3\<rparr>)
                              (Some (Leaf [(1, 2)])) (Some (Leaf [(0, 2)]))),
          feature_indices = Some [0]\<rparr>,
       \<lparr>stopping_criteria = 1,
          root_node = Some (Decision (Some \<lparr>feature = 0, split_value = 3\<rparr>)
                              (Some (Leaf [(1, 2)])) (Some (Leaf [(0, 2)]))),
          feature_indices = Some [0]\<rparr>]\<rparr>
      [[1], [4]] = Inr labels \<and> length labels = length [[1], [4 :: rat]])
   \<and> fitted_tree 1
       \<lparr>stopping_criteria = 1,
          root_node = Some (Decision (Some \<lparr>feature = 0, split_value = 3\<rparr>)
                              (Some (Leaf [(1, 2)])) (Some (Leaf [(0, 2)]))),
          feature_indices = Some [0]\<rparr>
   \<and> (\<exists>labels. random_forest_predict
       \<lparr>stopping_criteria = 1,
          root_node = Some (Decision (Some \<lparr>feature = 0, split_value = 3\<rparr>)
                              (Some (Leaf [(1, 2)])) (Some (Leaf [(0, 2)]))),
          feature_indices = Some [0]\<rparr>
       [[1], [4]] = Inr labels \<and> length labels = length [[1], [4 :: rat]])
   \<and> length [[1], [4 :: rat]] \<le> length [0, 1 :: rat]
   \<and> predict
       \<lparr>stopping_criteria = 1,
          root_node = Some (Decision (Some \<lparr>feature = 0, split_value = 3\<rparr>)
                              (Some (Leaf [(1, 2)])) (Some (Leaf [(0, 2)]))),
          feature_indices = Some [0]\<rparr>
       [[1], [4]] [0, 1] = Inr ((2, 2, 100), None)"
proof -
  let ?T = "\<lparr>stopping_criteria = 1,
          root_node = Some (Decision (Some \<lparr>feature = 0, split_value = 3\<rparr>)
                              (Some (Leaf [(1, 2)])) (Some (Leaf [(0, 2)]))),
          feature_indices = Some [0]\<rparr>"
  have f: "fit remdups (new_tree\<lparr>feature_indices := Some [0]\<rparr>)
             [[1], [2], [3], [4]] [0, 0, 1, 1] 1 = Inr ?T" by code_simp
  have "length (hd [[1], [2], [3], [4 :: rat]]) = 1" by simp
  with f have ft: "fitted_tree 1 ?T" unfolding fitted_tree_def by blast
  let ?R = "\<lparr>n_trees = 2, max_features = Some 1, forest_stopping_criteria = 1,
              the_forest = [?T, ?T]\<rparr>"
  from ft have ff: "fitted_forest 1 (the_forest ?R)" by (simp add: fitted_forest_def)
  have ne: "the_forest ?R \<noteq> []" by simp
  have la: "list_all (\<lambda>r. length r = 1) [[1], [4 :: rat]]" by simp
  then have rows: "\<forall>r\<in>set [[1], [4 :: rat]]. length r = 1" by simp
  have fp: "forest_predict ?R [[1], [4]] = Inr [0, 1]" by code_simp
  have pr: "predict ?T [[1], [4]] [0, 1] = Inr ((2, 2, 100), None)" by code_simp
  have le: "length [[1], [4 :: rat]] \<le> length [0, 1 :: rat]" by simp
  note t = predict_results[where F = 1 and fself = ?R and x = "[[1], [4]]"
      and self = ?T and y = "[0, 1]"]
  from t ff ne rows have c1: "\<exists>labels. forest_predict ?R [[1], [4]] = Inr labels
      \<and> length labels = length [[1], [4 :: rat]]" by blast
  from t ft rows have c2: "\<exists>labels. random_forest_predict ?T [[1], [4]] = Inr labels
      \<and> length labels = length [[1], [4 :: rat]]" by blast
  show ?thesis by (intro conjI) (rule ff la fp c1 ft c2 le pr)+
qed

text \<open>
  The claim as it is written fails for the single tree: on the tree fitted to the four
  rows of the specification's example, \<open>predict\<close> with the matrix and its labels
  prints \<open>N: 4 C: 4 100.00%\<close> and returns \<open>None\<close>, not a vector of four labels.
\<close>

theorem tree_predict_counterexample:
  "fit remdups new_tree [[1], [2], [3], [4]] [0, 0, 1, 1] 1
     = Inr \<lparr>stopping_criteria = 1,
          root_node = Some (Decision (Some \<lparr>feature = 0, split_value = 3\<rparr>)
                              (Some (Leaf [(1, 2)])) (Some (Leaf [(0, 2)]))),
          feature_indices = None\<rparr>
   \<and> predict
       \<lparr>stopping_criteria = 1,
          root_node = Some (Decision (Some \<lparr>feature = 0, split_value = 3\<rparr>)
                              (Some (Leaf [(1, 2)])) (Some (Leaf [(0, 2)]))),
          feature_indices = None\<rparr>
       [[1], [2], [3], [4]] [0, 0, 1, 1] = Inr ((4, 4, 100), None)"
  by (intro conjI; code_simp)

section \<open>What fitting a forest establishes\<close>

lemma index_rows_Inr:
  assumes "\<forall>j\<in>set idx. j < length a"
  shows "index_rows a idx = Inr (map (\<lambda>j. a ! j) idx)"
  using assms by (simp add: index_rows_def list_all_iff)

lemma subset_step_collect:
  "subset_step rng X_y k subsets =
     (case (case index_rows X_y (row_choice rng k) of
              Inl e \<Rightarrow> Inl e
            | Inr drawn \<Rightarrow> Inr (map butlast drawn, map last drawn)) of
        Inl e \<Rightarrow> Inl e | Inr v \<Rightarrow> Inr (subsets @ [v]))"
  by (simp add: subset_step_def split: sum.splits)

lemma get_random_subsets_total:
  assumes "numpy_draws (length x) F mf rng" and "\<forall>r\<in>set x. length r = F"
    and "length y = length x"
  shows "\<exists>subsets. get_random_subsets rng x y n = Inr subsets \<and> length subsets = n
           \<and> (\<forall>sub\<in>set subsets. length (fst sub) = length x \<and> length (snd sub) = length x
                  \<and> (\<forall>r\<in>set (fst sub). length r = F))"
proof -
  let ?X_y = "shuffle rng (map (\<lambda>(r, l). r @ [l]) (zip x y))"
  from assms(1) have sh: "length ?X_y = length (map (\<lambda>(r, l). r @ [l]) (zip x y))"
    "set ?X_y = set (map (\<lambda>(r, l). r @ [l]) (zip x y))"
    by (simp_all add: numpy_draws_def)
  from sh(1) assms(3) have len: "length ?X_y = length x" by simp
  have rows: "\<forall>r\<in>set ?X_y. length r = Suc F"
  proof
    fix r assume "r \<in> set ?X_y"
    with sh(2) obtain a l where "(a, l) \<in> set (zip x y)" "r = a @ [l]" by auto
    moreover from this(1) have "a \<in> set x" by (rule set_zip_leftD)
    ultimately show "length r = Suc F" using assms(2) by simp
  qed
  let ?f = "\<lambda>k. case index_rows ?X_y (row_choice rng k) of
              Inl e \<Rightarrow> Inl e
            | Inr drawn \<Rightarrow> Inr (map butlast drawn, map last drawn)"
  let ?g = "\<lambda>k. (map butlast (map (\<lambda>j. ?X_y ! j) (row_choice rng k)),
                 map last (map (\<lambda>j. ?X_y ! j) (row_choice rng k)))"
  have ch: "length (row_choice rng k) = length x" "\<forall>j\<in>set (row_choice rng k). j < length x" for k
    using assms(1) by (simp_all add: numpy_draws_def)
  have f: "?f k = Inr (?g k)" for k
    using index_rows_Inr[of "row_choice rng k" ?X_y] ch(2)[of k] len by simp
  have m: "map ?f [0 ..< n] = map Inr (map ?g [0 ..< n])" by (simp add: f)
  from efold_collect_total[where f = ?f, OF subset_step_collect m, of "[]"] assms(3)
  have g: "get_random_subsets rng x y n = Inr (map ?g [0 ..< n])"
    by (simp add: get_random_subsets_def)
  have "length (fst sub) = length x \<and> length (snd sub) = length x
        \<and> (\<forall>r\<in>set (fst sub). length r = F)" if "sub \<in> set (map ?g [0 ..< n])" for sub
  proof -
    from that obtain k where sub: "sub = ?g k" by auto
    have "length r = F" if "r \<in> set (fst sub)" for r
    proof -
      from that sub obtain j where j: "j \<in> set (row_choice rng k)" "r = butlast (?X_y ! j)"
        by auto
      from j(1) ch(2)[of k] len have "?X_y ! j \<in> set ?X_y" by simp
      with rows j(2) show ?thesis by simp
    qed
    with sub ch(1)[of k] show ?thesis by simp
  qed
  with g show ?thesis by (intro exI[of _ "map ?g [0 ..< n]"]) simp
qed

lemma fit_total:
  assumes "x \<noteq> []" and "\<forall>r\<in>set x. length r = length (hd x)" and "length x \<le> length y"
  shows "\<exists>t. fit order self x y sc = Inr t"
proof -
  note m = merge_train_total[OF assms]
  from build_total[OF merge_train_Inr(4)[OF m]] obtain built where
    "build order (if sc \<noteq> 0 then sc
                  else of_nat (length (map (\<lambda>i. x ! i @ [y ! i]) [0 ..< length x])) / 10)
       (map (\<lambda>i. x ! i @ [y ! i]) [0 ..< length x]) = Inr built" by blast
  with m show ?thesis by (simp add: fit_def Let_def)
qed

lemma sfold_upt:
  assumes "Inv m s" and "m \<le> n"
    and "\<And>i a. m \<le> i \<Longrightarrow> i < n \<Longrightarrow> Inv i a \<Longrightarrow> \<exists>b. body i a = Inr b \<and> Inv (Suc i) b"
  shows "\<exists>s'. sfold body [m ..< n] s = Inr s' \<and> Inv n s'"
  using assms
proof (induction "n - m" arbitrary: m s)
  case 0
  then show ?case by simp
next
  case (Suc d)
  then have lt: "m < n" by simp
  from Suc.prems(3)[OF le_refl lt Suc.prems(1)] obtain b where
    b: "body m s = Inr b" "Inv (Suc m) b" by blast
  have "\<exists>s'. sfold body [Suc m ..< n] b = Inr s' \<and> Inv n s'"
  proof (rule Suc.hyps(1))
    show "d = n - Suc m" using Suc.hyps(2) by simp
    show "Inv (Suc m) b" by (rule b(2))
    show "Suc m \<le> n" using lt by simp
    fix i a assume "Suc m \<le> i" "i < n" "Inv i a"
    then show "\<exists>b. body i a = Inr b \<and> Inv (Suc i) b" using Suc.prems(3)[of i a] by simp
  qed
  with b(1) lt show ?case by (simp add: upt_rec[of m n])
qed

lemma fit_tree_step_total:
  assumes d: "numpy_draws ns F mf rng" and i: "i < n" and inv: "trees_fitted F mf n sc i self"
    and subs: "length subsets = n"
      "\<forall>sub\<in>set subsets. length (fst sub) = ns \<and> length (snd sub) = ns
                  \<and> (\<forall>r\<in>set (fst sub). length r = F)"
    and ns: "0 < ns"
  shows "\<exists>self'. fit_tree_step rng order subsets F i self = Inr self'
           \<and> trees_fitted F mf n sc (Suc i) self'"
proof -
  obtain xs ys where sub: "subsets ! i = (xs, ys)" by (cases "subsets ! i")
  from i subs(1) have "subsets ! i \<in> set subsets" by simp
  with subs(2) sub have xs: "length xs = ns" "length ys = ns" "\<forall>r\<in>set xs. length r = F"
    by auto
  let ?idx = "feature_choice rng i"
  from d have idx: "length ?idx = mf" "\<forall>j\<in>set ?idx. j < F" by (simp_all add: numpy_draws_def)
  from inv have st: "length (the_forest self) = n" "max_features self = Some mf"
    "forest_stopping_criteria self = sc" "n_trees self = n"
    "fitted_forest F (take i (the_forest self))" by (simp_all add: trees_fitted_def)
  have no_empty: "\<not> (F = 0 \<and> max_features self \<noteq> Some 0)"
  proof
    assume a: "F = 0 \<and> max_features self \<noteq> Some 0"
    with idx(2) have "?idx = []" by (cases ?idx) auto
    with idx(1) st(2) a show False by simp
  qed
  let ?t1 = "(the_forest self ! i)\<lparr>feature_indices := Some ?idx\<rparr>"
  let ?xsel = "map (\<lambda>r. map (\<lambda>j. r ! j) ?idx) xs"
  have sel: "select_columns xs ?idx = Inr ?xsel"
    by (rule select_columns_total) (use xs(3) idx(2) in auto)
  from xs(1) ns have xne: "?xsel \<noteq> []" by auto
  then have hd_len: "length (hd ?xsel) = length ?idx" by (cases xs) auto
  have "\<exists>t. fit order ?t1 ?xsel ys sc = Inr t"
  proof (rule fit_total[OF xne])
    show "\<forall>r\<in>set ?xsel. length r = length (hd ?xsel)" using hd_len by auto
    show "length ?xsel \<le> length ys" using xs(1,2) by simp
  qed
  then obtain t' where f: "fit order ?t1 ?xsel ys sc = Inr t'" ..
  from fit_Inr[OF f] have fi: "feature_indices t' = Some ?idx" by auto
  from f hd_len have ft: "fitted_tree (length ?idx) t'" unfolding fitted_tree_def by blast
  let ?self' = "self\<lparr>the_forest := (the_forest self)[i := t']\<rparr>"
  have step: "fit_tree_step rng order subsets F i self = Inr ?self'"
    using i subs(1) sub no_empty st(1,3) sel f by (simp add: fit_tree_step_def Let_def)
  have tk: "take (Suc i) ((the_forest self)[i := t']) = take i (the_forest self) @ [t']"
    using i st(1) by (simp add: take_Suc_conv_app_nth)
  have "fitted_forest F (take (Suc i) ((the_forest self)[i := t']))"
    unfolding tk using st(5) fi idx(2) ft by (auto simp: fitted_forest_def)
  with st have "trees_fitted F mf n sc (Suc i) ?self'" by (simp add: trees_fitted_def)
  with step show ?thesis by blast
qed

text \<open>
  On a matrix with at least one row, as many labels as rows and a generator that keeps
  its contract, \<open>RandomForest.fit\<close> returns, and what it leaves is a fitted forest.
\<close>

lemma forest_fit_fitted:
  assumes "numpy_draws (length x) F mf rng"
    and "x \<noteq> []" and "\<forall>r\<in>set x. length r = F" and "length y = length x"
    and "length (the_forest self) = n_trees self"
    and "mf = (case max_features self of None \<Rightarrow> isqrt F
               | Some k \<Rightarrow> if k = 0 then isqrt F else k)"
  shows "\<exists>self'. forest_fit rng order self x y = Inr self'
           \<and> fitted_forest F (the_forest self')
           \<and> length (the_forest self') = n_trees self \<and> max_features self' = Some mf"
proof -
  from assms(2) obtain x0 rest where x: "x = x0 # rest" by (cases x) auto
  with assms(3) have F: "length x0 = F" by simp
  let ?self1 = "if max_features self = None \<or> max_features self = Some 0
                then self\<lparr>max_features := Some (isqrt F)\<rparr> else self"
  have mf1: "max_features ?self1 = Some mf"
    using assms(6) by (auto split: option.splits)
  have n1: "n_trees ?self1 = n_trees self" "the_forest ?self1 = the_forest self"
    "forest_stopping_criteria ?self1 = forest_stopping_criteria self" by simp_all
  from get_random_subsets_total[OF assms(1,3,4), of "n_trees self"] obtain subsets where
    g: "get_random_subsets rng x y (n_trees self) = Inr subsets"
    and ls: "length subsets = n_trees self"
    and ss: "\<forall>sub\<in>set subsets. length (fst sub) = length x \<and> length (snd sub) = length x
                  \<and> (\<forall>r\<in>set (fst sub). length r = F)" by blast
  let ?Inv = "trees_fitted F mf (n_trees self) (forest_stopping_criteria self)"
  have inv0: "?Inv 0 ?self1"
    using mf1 n1 assms(5) by (simp add: trees_fitted_def fitted_forest_def)
  have "\<exists>s'. sfold (fit_tree_step rng order subsets F) [0 ..< n_trees self] ?self1 = Inr s'
          \<and> ?Inv (n_trees self) s'"
  proof (rule sfold_upt[where Inv = ?Inv, OF inv0])
    show "0 \<le> n_trees self" by simp
    fix i a assume "i < n_trees self" "?Inv i a"
    from fit_tree_step_total[OF assms(1) this ls ss] assms(2)
    show "\<exists>b. fit_tree_step rng order subsets F i a = Inr b \<and> ?Inv (Suc i) b" by simp
  qed
  then obtain s' where s: "sfold (fit_tree_step rng order subsets F) [0 ..< n_trees self] ?self1
      = Inr s'" and inv: "?Inv (n_trees self) s'" by blast
  have "forest_fit rng order self x y = Inr s'"
    using x F g s n1(1) by (simp add: forest_fit_def Let_def)
  moreover from inv have l: "length (the_forest s') = n_trees self"
    and "max_features s' = Some mf"
    and t: "fitted_forest F (take (n_trees self) (the_forest s'))"
    unfolding trees_fitted_def by blast+
  moreover from t l have "fitted_forest F (the_forest s')" by simp
  ultimately show ?thesis by blast
qed

end
